theory Spec2Isabelle
  imports Main "HOL-Library.Sublist" "HOL-Library.Word"
begin

section \<open>The token model of lexer.c\<close>

definition MAX_LEXEME_LEN :: nat where
  "MAX_LEXEME_LEN = 256"

definition MAX_ID_LEN :: nat where
  "MAX_ID_LEN = 64"

datatype TokenType =
    TOK_EOF | TOK_KEYWORD | TOK_IDENTIFIER | TOK_INT | TOK_FLOAT | TOK_STRING
  | TOK_CHAR | TOK_OPERATOR | TOK_SEPARATOR | TOK_UNKNOWN | TOK_ERROR

text \<open>
  A C \<open>int\<close> is a 32-bit word: \<open>+\<close> and \<open>-\<close> wrap around, as the compiled program
  does, and \<open>sint\<close> reads the signed value.
\<close>

type_synonym c_int = "32 word"

record Token =
  type :: TokenType
  lexeme :: string
  line :: c_int
  col :: c_int

text \<open>
  Characters are bytes. A value of C type \<open>int\<close> that holds the result of \<open>fgetc\<close> is a
  \<open>char option\<close>, with \<open>None\<close> for \<open>EOF\<close>. Five characters that are awkward to write inside
  a string literal get names.
\<close>

abbreviation NL :: char where "NL \<equiv> CHR 0x0A"
abbreviation DQ :: char where "DQ \<equiv> CHR 0x22"
abbreviation SQ :: char where "SQ \<equiv> CHR 0x27"
abbreviation BS :: char where "BS \<equiv> CHR 0x5C"
abbreviation NUL :: char where "NUL \<equiv> CHR 0x00"

text \<open>
  A \<open>char\<close> buffer is read by \<open>strcmp\<close>, \<open>strlen\<close>, \<open>strncpy\<close> as a C string: the
  characters before the first NUL.
\<close>

definition cstr :: "string \<Rightarrow> string" where
  "cstr buf = takeWhile (\<lambda>c. c \<noteq> NUL) buf"

definition KEYWORDS :: "string list" where
  "KEYWORDS = [''if'', ''else'', ''while'', ''for'', ''return'', ''int'', ''float'',
               ''char'', ''void'', ''break'', ''continue'', ''struct'', ''const'']"

definition is_keyword :: "string \<Rightarrow> bool" where
  "is_keyword s = (cstr s \<in> set KEYWORDS)"

text \<open>The character classes of \<open>ctype.h\<close> in the C locale (the program sets no other).\<close>

definition isspace :: "char option \<Rightarrow> bool" where
  "isspace c = (case c of None \<Rightarrow> False
     | Some x \<Rightarrow> x \<in> set [CHR '' '', CHR 0x09, NL, CHR 0x0B, CHR 0x0C, CHR 0x0D])"

definition isdigit :: "char option \<Rightarrow> bool" where
  "isdigit c = (case c of None \<Rightarrow> False | Some x \<Rightarrow> x \<in> set ''0123456789'')"

definition isalpha :: "char option \<Rightarrow> bool" where
  "isalpha c = (case c of None \<Rightarrow> False
     | Some x \<Rightarrow> x \<in> set ''abcdefghijklmnopqrstuvwxyzABCDEFGHIJKLMNOPQRSTUVWXYZ'')"

definition isalnum :: "char option \<Rightarrow> bool" where
  "isalnum c = (isalpha c \<or> isdigit c)"

text \<open>The cast \<open>(char)c\<close> of an \<open>int\<close> read from the file; \<open>EOF\<close> is \<open>-1\<close>, the byte 0xFF.\<close>

definition to_char :: "char option \<Rightarrow> char" where
  "to_char c = (case c of None \<Rightarrow> CHR 0xFF | Some x \<Rightarrow> x)"

text \<open>
  \<open>make_token\<close> copies at most \<open>MAX_LEXEME_LEN - 1\<close> characters of the C string it is given.
\<close>

definition make_token :: "TokenType \<Rightarrow> string \<Rightarrow> c_int \<Rightarrow> c_int \<Rightarrow> Token" where
  "make_token ty lx l c =
     \<lparr>type = ty, lexeme = take (MAX_LEXEME_LEN - 1) (cstr lx), line = l, col = c\<rparr>"

text \<open>The guarded store \<open>if (len < n) buf[len++] = c;\<close> on a buffer that holds \<open>len\<close> characters.\<close>

definition put :: "nat \<Rightarrow> string \<Rightarrow> char \<Rightarrow> string" where
  "put n buf c = (if length buf < n then buf @ [c] else buf)"

section \<open>The stream and the position counters\<close>

text \<open>
  The state the scanner works on: the \<open>FILE\<close> (the characters given back with \<open>ungetc\<close>,
  the most recent first, and the rest of the file) and the two globals \<open>g_line\<close>, \<open>g_col\<close>.
  \<open>ungetc\<close> is a stack, as in glibc: the code pushes back two characters in a row and
  depends on it. The counters are C \<open>int\<close>s, 32-bit words that wrap around.
  \<open>pb_peak\<close> is an observer added to the model (the program has no such variable): the
  largest number of characters that have been pending in the pushback at one time.
\<close>

record lexer =
  pushback :: "char list"
  input :: "char list"
  g_line :: c_int
  g_col :: c_int
  pb_peak :: nat

definition init_state :: "string \<Rightarrow> lexer" where
  "init_state inp = \<lparr>pushback = [], input = inp, g_line = 1, g_col = 0, pb_peak = 0\<rparr>"

definition fgetc :: "lexer \<Rightarrow> char option \<times> lexer" where
  "fgetc s =
     (case pushback s of
        x # p \<Rightarrow> (Some x, s\<lparr>pushback := p\<rparr>)
      | [] \<Rightarrow> (case input s of
                 x # r \<Rightarrow> (Some x, s\<lparr>input := r\<rparr>)
               | [] \<Rightarrow> (None, s)))"

definition ungetc :: "char \<Rightarrow> lexer \<Rightarrow> lexer" where
  "ungetc x s =
     s\<lparr>pushback := x # pushback s,
       pb_peak := max (pb_peak s) (Suc (length (pushback s)))\<rparr>"

definition read_char :: "lexer \<Rightarrow> char option \<times> lexer" where
  "read_char s =
     (case fgetc s of (c, s') \<Rightarrow>
        if c = Some NL then (c, s'\<lparr>g_line := g_line s' + 1, g_col := 0\<rparr>)
        else if c \<noteq> None then (c, s'\<lparr>g_col := g_col s' + 1\<rparr>)
        else (c, s'))"

definition unread_char :: "char option \<Rightarrow> lexer \<Rightarrow> lexer" where
  "unread_char c s =
     (case c of
        None \<Rightarrow> s
      | Some x \<Rightarrow>
          (let s' = ungetc x s
           in if x \<noteq> NL then s'\<lparr>g_col := g_col s' - 1\<rparr> else s'))"

text \<open>
  What is still to be read, and the same with a character that is held in a local variable
  in front.
\<close>

definition pending :: "lexer \<Rightarrow> string" where
  "pending s = pushback s @ input s"

definition ostr :: "char option \<Rightarrow> string" where
  "ostr c = (case c of None \<Rightarrow> [] | Some x \<Rightarrow> [x])"

lemma read_char_pending:
  "read_char s = (c, s') \<Longrightarrow> pending s = ostr c @ pending s'"
  by (auto simp: read_char_def fgetc_def pending_def ostr_def
           split: list.splits if_splits)

lemma read_char_len:
  "read_char s = (c, s') \<Longrightarrow> length (ostr c) + length (pending s') = length (pending s)"
  using read_char_pending [of s c s'] by simp

lemma unread_char_pending:
  "pending (unread_char c s) = ostr c @ pending s"
  by (simp add: unread_char_def ungetc_def pending_def ostr_def Let_def
           split: option.splits)

lemma ostr_simps [simp]: "ostr None = []" "ostr (Some x) = [x]"
  by (simp_all add: ostr_def)

lemma isspace_Some: "isspace c \<Longrightarrow> \<exists>x. c = Some x"
  by (cases c) (simp_all add: isspace_def)

section \<open>Skipping whitespace and comments\<close>

function ws_loop :: "char option \<Rightarrow> lexer \<Rightarrow> char option \<times> lexer" where
  "ws_loop c s =
     (if isspace c then (case read_char s of (c', s') \<Rightarrow> ws_loop c' s') else (c, s))"
  by pat_completeness auto
termination
  by (relation "measure (\<lambda>(c, s). length (ostr c) + length (pending s))")
     (auto split: prod.splits dest!: read_char_len isspace_Some)

declare ws_loop.simps [simp del]

function line_loop :: "char option \<Rightarrow> lexer \<Rightarrow> char option \<times> lexer" where
  "line_loop ch s =
     (if ch \<noteq> Some NL \<and> ch \<noteq> None
      then (case read_char s of (ch', s') \<Rightarrow> line_loop ch' s')
      else (ch, s))"
  by pat_completeness auto
termination
  by (relation "measure (\<lambda>(c, s). length (ostr c) + length (pending s))")
     (auto split: prod.splits dest!: read_char_len)

declare line_loop.simps [simp del]

function block_loop :: "char \<Rightarrow> char option \<Rightarrow> lexer \<Rightarrow> char option \<times> lexer" where
  "block_loop prev ch s =
     (case ch of
        None \<Rightarrow> (ch, s)
      | Some x \<Rightarrow>
          if prev = CHR ''*'' \<and> x = CHR ''/'' then (ch, s)
          else (case read_char s of (ch', s') \<Rightarrow> block_loop x ch' s'))"
  by pat_completeness auto
termination
  by (relation "measure (\<lambda>(p, c, s). length (ostr c) + length (pending s))")
     (auto split: prod.splits dest!: read_char_len)

declare block_loop.simps [simp del]

lemma ws_loop_stop: "\<not> isspace c \<Longrightarrow> ws_loop c s = (c, s)"
  by (subst ws_loop.simps) simp

lemma ws_loop_step: "isspace c \<Longrightarrow> read_char s = (c1, s1) \<Longrightarrow> ws_loop c s = ws_loop c1 s1"
  by (subst ws_loop.simps) simp

lemma line_loop_stop: "c = Some NL \<or> c = None \<Longrightarrow> line_loop c s = (c, s)"
  by (subst line_loop.simps) auto

lemma line_loop_step:
  "c \<noteq> Some NL \<Longrightarrow> c \<noteq> None \<Longrightarrow> read_char s = (c1, s1) \<Longrightarrow> line_loop c s = line_loop c1 s1"
  by (subst line_loop.simps) simp

lemma block_loop_None: "block_loop p None s = (None, s)"
  by (subst block_loop.simps) simp

lemma block_loop_close: "block_loop (CHR ''*'') (Some (CHR ''/'')) s = (Some (CHR ''/''), s)"
  by (subst block_loop.simps) simp

lemma block_loop_step:
  "\<not> (p = CHR ''*'' \<and> x = CHR ''/'') \<Longrightarrow> read_char s = (c1, s1) \<Longrightarrow>
     block_loop p (Some x) s = block_loop x c1 s1"
  by (subst block_loop.simps) auto

lemma ws_loop_suffix:
  "ws_loop c s = (c', s') \<Longrightarrow> suffix (ostr c' @ pending s') (ostr c @ pending s)"
proof (induction c s rule: ws_loop.induct)
  case (1 c s)
  show ?case
  proof (cases "isspace c")
    case False
    with "1.prems" show ?thesis by (simp add: ws_loop_stop)
  next
    case True
    obtain c1 s1 where r: "read_char s = (c1, s1)" by (cases "read_char s")
    from True r "1.prems" have "ws_loop c1 s1 = (c', s')" by (simp add: ws_loop_step)
    with "1.IH" [OF True r [symmetric]] have "suffix (ostr c' @ pending s') (ostr c1 @ pending s1)"
      by simp
    also have "ostr c1 @ pending s1 = pending s" using read_char_pending [OF r] by simp
    finally show ?thesis by (simp add: suffix_appendI)
  qed
qed

lemma line_loop_suffix:
  "line_loop c s = (c', s') \<Longrightarrow> suffix (ostr c' @ pending s') (ostr c @ pending s)"
proof (induction c s rule: line_loop.induct)
  case (1 c s)
  show ?case
  proof (cases "c \<noteq> Some NL \<and> c \<noteq> None")
    case False
    with "1.prems" show ?thesis by (auto simp: line_loop_stop)
  next
    case True
    obtain c1 s1 where r: "read_char s = (c1, s1)" by (cases "read_char s")
    from True r "1.prems" have "line_loop c1 s1 = (c', s')" by (simp add: line_loop_step)
    with "1.IH" [OF True r [symmetric]] have "suffix (ostr c' @ pending s') (ostr c1 @ pending s1)"
      by simp
    also have "ostr c1 @ pending s1 = pending s" using read_char_pending [OF r] by simp
    finally show ?thesis by (simp add: suffix_appendI)
  qed
qed

lemma block_loop_suffix:
  "block_loop p c s = (c', s') \<Longrightarrow> suffix (ostr c' @ pending s') (ostr c @ pending s)"
proof (induction p c s rule: block_loop.induct)
  case (1 p c s)
  show ?case
  proof (cases c)
    case None
    with "1.prems" show ?thesis by (simp add: block_loop_None)
  next
    case (Some x)
    show ?thesis
    proof (cases "p = CHR ''*'' \<and> x = CHR ''/''")
      case True
      with Some "1.prems" show ?thesis by (simp add: block_loop_close)
    next
      case False
      obtain c1 s1 where r: "read_char s = (c1, s1)" by (cases "read_char s")
      from False Some r "1.prems" have "block_loop x c1 s1 = (c', s')"
        by (simp add: block_loop_step)
      with "1.IH" [OF Some False r [symmetric]]
      have "suffix (ostr c' @ pending s') (ostr c1 @ pending s1)" by simp
      also have "ostr c1 @ pending s1 = pending s" using read_char_pending [OF r] by simp
      finally show ?thesis by (simp add: suffix_appendI)
    qed
  qed
qed

lemma suffix_len_pending:
  "suffix (ostr c' @ pending s') (ostr c @ pending s) \<Longrightarrow>
     length (ostr c') + length (pending s') \<le> length (ostr c) + length (pending s)"
  by (drule suffix_length_le) simp

lemma read_char_len_sym:
  "(c, s') = read_char s \<Longrightarrow> length (ostr c) + length (pending s') = length (pending s)"
  by (rule read_char_len) simp

lemma ws_loop_len:
  "(c', s') = ws_loop c s \<Longrightarrow>
     length (ostr c') + length (pending s') \<le> length (ostr c) + length (pending s)"
  by (rule suffix_len_pending, rule ws_loop_suffix) simp

lemma line_loop_len:
  "(c', s') = line_loop c s \<Longrightarrow>
     length (ostr c') + length (pending s') \<le> length (ostr c) + length (pending s)"
  by (rule suffix_len_pending, rule line_loop_suffix) simp

lemma block_loop_len:
  "(c', s') = block_loop p c s \<Longrightarrow>
     length (ostr c') + length (pending s') \<le> length (ostr c) + length (pending s)"
  by (rule suffix_len_pending, rule block_loop_suffix) simp

function skip_whitespace_and_comments :: "lexer \<Rightarrow> lexer" where
  "skip_whitespace_and_comments s =
     (case read_char s of (c0, s0) \<Rightarrow>
      case ws_loop c0 s0 of (c, s1) \<Rightarrow>
        if c = Some CHR ''/'' then
          (case read_char s1 of (next, s2) \<Rightarrow>
             if next = Some CHR ''/'' then
               (case read_char s2 of (ch, s3) \<Rightarrow>
                case line_loop ch s3 of (ch', s4) \<Rightarrow> skip_whitespace_and_comments s4)
             else if next = Some CHR ''*'' then
               (case read_char s2 of (ch, s3) \<Rightarrow>
                case block_loop NUL ch s3 of (ch', s4) \<Rightarrow> skip_whitespace_and_comments s4)
             else unread_char c (unread_char next s2))
        else unread_char c s1)"
  by pat_completeness auto
termination
  by (relation "measure (\<lambda>s. length (pending s))")
     (auto split: prod.splits
           dest!: read_char_len_sym ws_loop_len line_loop_len block_loop_len)

section \<open>Identifiers and keywords\<close>

lemma isdigit_Some: "isdigit c \<Longrightarrow> \<exists>x. c = Some x"
  by (cases c) (simp_all add: isdigit_def)

lemma isalpha_Some: "isalpha c \<Longrightarrow> \<exists>x. c = Some x"
  by (cases c) (simp_all add: isalpha_def)

lemma isalnum_Some: "isalnum c \<Longrightarrow> \<exists>x. c = Some x"
  by (auto simp: isalnum_def dest: isdigit_Some isalpha_Some)

function ident_loop :: "char option \<Rightarrow> string \<Rightarrow> lexer \<Rightarrow> char option \<times> string \<times> lexer" where
  "ident_loop c buf s =
     (if isalnum c \<or> c = Some CHR ''_''
      then (case read_char s of
              (c', s') \<Rightarrow> ident_loop c' (put (MAX_LEXEME_LEN - 1) buf (to_char c)) s')
      else (c, buf, s))"
  by pat_completeness auto
termination
  by (relation "measure (\<lambda>(c, b, s). length (ostr c) + length (pending s))")
     (auto split: prod.splits dest!: read_char_len_sym isalnum_Some)

declare ident_loop.simps [simp del]

definition read_identifier_or_keyword :: "lexer \<Rightarrow> Token \<times> lexer" where
  "read_identifier_or_keyword s =
     (let start_line = g_line s; start_col = g_col s + 1
      in case read_char s of (c0, s0) \<Rightarrow>
         case ident_loop c0 [] s0 of (c, buf, s1) \<Rightarrow>
           let s2 = unread_char c s1
           in if \<not> is_keyword buf \<and> length (cstr buf) > MAX_ID_LEN
              then (make_token TOK_IDENTIFIER (take MAX_ID_LEN (cstr buf)) start_line start_col, s2)
              else if is_keyword buf
              then (make_token TOK_KEYWORD buf start_line start_col, s2)
              else (make_token TOK_IDENTIFIER buf start_line start_col, s2))"

section \<open>Numbers\<close>

function digit_loop :: "char option \<Rightarrow> string \<Rightarrow> lexer \<Rightarrow> char option \<times> string \<times> lexer" where
  "digit_loop c buf s =
     (if isdigit c
      then (case read_char s of
              (c', s') \<Rightarrow> digit_loop c' (put (MAX_LEXEME_LEN - 1) buf (to_char c)) s')
      else (c, buf, s))"
  by pat_completeness auto
termination
  by (relation "measure (\<lambda>(c, b, s). length (ostr c) + length (pending s))")
     (auto split: prod.splits dest!: read_char_len_sym isdigit_Some)

declare digit_loop.simps [simp del]

definition read_number :: "lexer \<Rightarrow> Token \<times> lexer" where
  "read_number s =
     (let start_line = g_line s; start_col = g_col s + 1
      in case read_char s of (c0, s0) \<Rightarrow>
         case digit_loop c0 [] s0 of (c, buf, s1) \<Rightarrow>
         case (if c = Some CHR ''.''
               then (case read_char s1 of (c1, s2) \<Rightarrow>
                     case digit_loop c1 (put (MAX_LEXEME_LEN - 1) buf CHR ''.'') s2 of
                       (c2, buf2, s3) \<Rightarrow> (True, c2, buf2, s3))
               else (False, c, buf, s1)) of
           (is_float, c', buf', s') \<Rightarrow>
             (make_token (if is_float then TOK_FLOAT else TOK_INT) buf' start_line start_col,
              unread_char c' s'))"

section \<open>String and character literals\<close>

text \<open>
  The loop of \<open>read_string\<close>. It ends in one of two ways: a \<open>return\<close> of an error token
  from inside the body (\<open>None\<close>), or the loop condition fails (the character that ended it
  and the buffer).
\<close>

function string_loop ::
  "char option \<Rightarrow> string \<Rightarrow> lexer \<Rightarrow> (char option \<times> string) option \<times> lexer" where
  "string_loop c buf s =
     (case c of
        None \<Rightarrow> (Some (c, buf), s)
      | Some x \<Rightarrow>
          if x = DQ then (Some (c, buf), s)
          else if x = NL then (None, s)
          else if x = BS then
            (case read_char s of (c1, s1) \<Rightarrow>
               (case c1 of
                  None \<Rightarrow> (None, s1)
                | Some y \<Rightarrow>
                    (case read_char s1 of (c2, s2) \<Rightarrow>
                       string_loop c2
                         (put (MAX_LEXEME_LEN - 2) (put (MAX_LEXEME_LEN - 2) buf x) y) s2)))
          else (case read_char s of (c2, s2) \<Rightarrow>
                  string_loop c2 (put (MAX_LEXEME_LEN - 1) buf x) s2))"
  by pat_completeness auto
termination
  by (relation "measure (\<lambda>(c, b, s). length (ostr c) + length (pending s))")
     (auto split: prod.splits dest!: read_char_len_sym)

declare string_loop.simps [simp del]

definition read_string :: "lexer \<Rightarrow> Token \<times> lexer" where
  "read_string s =
     (let start_line = g_line s; start_col = g_col s + 1
      in case read_char s of (quote, s0) \<Rightarrow>
         case read_char s0 of (c, s1) \<Rightarrow>
         case string_loop c [] s1 of (r, s2) \<Rightarrow>
           (case r of
              None \<Rightarrow> (make_token TOK_ERROR ''Unterminated string literal'' start_line start_col, s2)
            | Some (c', buf) \<Rightarrow>
                if c' = None
                then (make_token TOK_ERROR ''Unterminated string literal'' start_line start_col, s2)
                else (make_token TOK_STRING buf start_line start_col, s2)))"

definition read_char_literal :: "lexer \<Rightarrow> Token \<times> lexer" where
  "read_char_literal s =
     (let start_line = g_line s; start_col = g_col s + 1
      in case read_char s of (quote, s0) \<Rightarrow>
         case read_char s0 of (c, s1) \<Rightarrow>
           if c = None \<or> c = Some NL
           then (make_token TOK_ERROR ''Unterminated char literal'' start_line start_col, s1)
           else
             (case (if c = Some BS
                    then (case read_char s1 of (c1, s2) \<Rightarrow>
                            if c1 = None \<or> c1 = Some NL then (None, s2)
                            else (Some (put (MAX_LEXEME_LEN - 2)
                                          (put (MAX_LEXEME_LEN - 2) [] BS) (to_char c1)), s2))
                    else (Some (put (MAX_LEXEME_LEN - 1) [] (to_char c)), s1)) of
                (None, s2) \<Rightarrow>
                  (make_token TOK_ERROR ''Unterminated char literal'' start_line start_col, s2)
              | (Some buf, s2) \<Rightarrow>
                  (case read_char s2 of (closing, s3) \<Rightarrow>
                     if closing \<noteq> Some SQ
                     then (make_token TOK_ERROR ''Invalid/unterminated char literal''
                             start_line start_col, s3)
                     else (make_token TOK_CHAR buf start_line start_col, s3))))"

section \<open>Operators and separators\<close>

definition is_separator_char :: "char option \<Rightarrow> bool" where
  "is_separator_char c =
     (c = Some CHR ''('' \<or> c = Some CHR '')'' \<or> c = Some CHR ''{'' \<or> c = Some CHR ''}'' \<or>
      c = Some CHR ''['' \<or> c = Some CHR '']'' \<or> c = Some CHR '';'' \<or> c = Some CHR '','')"

definition two_ops :: "string list" where
  "two_ops = [''=='', ''!='', ''<='', ''>='', ''&&'', ''||'', ''++'',
              ''--'', ''+='', ''-='', ''*='', ''/='', ''%='', ''->'']"

text \<open>
  \<open>strchr(str, c) != NULL\<close>: the terminating NUL of \<open>str\<close> is part of the string that is
  searched, so the character NUL is found in every string.
\<close>

definition strchr :: "string \<Rightarrow> char option \<Rightarrow> bool" where
  "strchr str c = (to_char c \<in> set (cstr str) \<or> to_char c = NUL)"

definition read_operator_or_separator :: "lexer \<Rightarrow> Token \<times> lexer" where
  "read_operator_or_separator s =
     (let start_line = g_line s; start_col = g_col s + 1
      in case read_char s of (c1, s1) \<Rightarrow>
           if is_separator_char c1
           then (make_token TOK_SEPARATOR [to_char c1] start_line start_col, s1)
           else
             (case read_char s1 of (c2, s2) \<Rightarrow>
                if cstr [to_char c1, to_char c2] \<in> set two_ops
                then (make_token TOK_OPERATOR [to_char c1, to_char c2] start_line start_col, s2)
                else
                  (let s3 = unread_char c2 s2
                   in if strchr ''+-*/%<>=!&|^~?:.'' c1
                      then (make_token TOK_OPERATOR [to_char c1] start_line start_col, s3)
                      else (make_token TOK_UNKNOWN [to_char c1] start_line start_col, s3))))"

section \<open>The next token\<close>

definition next_token :: "lexer \<Rightarrow> Token \<times> lexer" where
  "next_token s =
     (let s1 = skip_whitespace_and_comments s
      in case read_char s1 of (c, s2) \<Rightarrow>
           if c = None then (make_token TOK_EOF ''EOF'' (g_line s2) (g_col s2), s2)
           else
             (let s3 = unread_char c s2
              in case read_char s3 of (c', s4) \<Rightarrow>
                   (let s5 = unread_char c' s4
                    in if isalpha c' \<or> c' = Some CHR ''_'' then read_identifier_or_keyword s5
                       else if isdigit c' then read_number s5
                       else if c' = Some DQ then read_string s5
                       else if c' = Some SQ then read_char_literal s5
                       else read_operator_or_separator s5)))"

text \<open>The caller asks for one token after the other: the state after \<open>n\<close> calls.\<close>

fun calls :: "nat \<Rightarrow> lexer \<Rightarrow> lexer" where
  "calls 0 s = s"
| "calls (Suc n) s = calls n (snd (next_token s))"

definition nth_token :: "nat \<Rightarrow> lexer \<Rightarrow> Token" where
  "nth_token n s = fst (next_token (calls n s))"

text \<open>
  The counters wrap around: with \<open>g_col\<close> at the largest \<open>int\<close>, the column of the next
  token is the smallest.
\<close>

lemma counters_wrap:
  "sint (col (fst (next_token
      \<lparr>pushback = [], input = ''b'', g_line = 1, g_col = 2147483647, pb_peak = 0\<rparr>))) =
     - 2147483648"
  by code_simp

declare skip_whitespace_and_comments.simps [simp del]

section \<open>What a state shows\<close>

text \<open>
  Everything the scanner computes depends on a state only through the characters still to
  be read and the two counters.
\<close>

definition view :: "lexer \<Rightarrow> string \<times> c_int \<times> c_int" where
  "view s = (pending s, g_line s, g_col s)"

lemma view_eq: "view s = view t \<longleftrightarrow> pending s = pending t \<and> g_line s = g_line t \<and> g_col s = g_col t"
  by (simp add: view_def)

lemma fst_read_char:
  "fst (read_char s) = (case pending s of [] \<Rightarrow> None | x # xs \<Rightarrow> Some x)"
  by (auto simp: read_char_def fgetc_def pending_def split: list.splits)

lemma view_read_char:
  "view (snd (read_char s)) =
     (case pending s of
        [] \<Rightarrow> view s
      | x # xs \<Rightarrow> (xs, if x = NL then g_line s + 1 else g_line s,
                      if x = NL then 0 else g_col s + 1))"
  by (auto simp: read_char_def fgetc_def pending_def view_def split: list.splits)

lemma g_line_unread_char: "g_line (unread_char c s) = g_line s"
  by (simp add: unread_char_def ungetc_def Let_def split: option.splits)

lemma g_col_unread_char:
  "g_col (unread_char c s) = (if c = None \<or> c = Some NL then g_col s else g_col s - 1)"
  by (simp add: unread_char_def ungetc_def Let_def split: option.splits)

lemma view_unread_char:
  "view (unread_char c s) =
     (ostr c @ pending s, g_line s, if c = None \<or> c = Some NL then g_col s else g_col s - 1)"
  by (simp add: view_def unread_char_pending g_line_unread_char g_col_unread_char)

lemma read_char_Nil:
  "pending s = [] \<Longrightarrow> read_char s = (None, s)"
  by (simp add: read_char_def fgetc_def pending_def)

lemma read_char_Cons:
  "pending s = x # xs \<Longrightarrow>
     \<exists>s'. read_char s = (Some x, s') \<and>
          view s' = (xs, if x = NL then g_line s + 1 else g_line s,
                     if x = NL then 0 else g_col s + 1)"
  using fst_read_char [of s] view_read_char [of s]
  by (cases "read_char s") simp

lemma peek_view:
  "read_char s = (Some x, s') \<Longrightarrow> x \<noteq> NL \<Longrightarrow> view (unread_char (Some x) s') = view s"
  using fst_read_char [of s] view_read_char [of s]
  by (auto simp: view_def unread_char_pending g_line_unread_char g_col_unread_char
           split: list.splits)


section \<open>The dispatch of \<open>next_token\<close>\<close>

lemma skip_plain:
  assumes p: "pending s = x # xs" and x: "\<not> isspace (Some x)" "x \<noteq> CHR ''/''"
  shows "view (skip_whitespace_and_comments s) = view s"
proof -
  from read_char_Cons [OF p] obtain s0 where r: "read_char s = (Some x, s0)" by blast
  have nl: "x \<noteq> NL" using x(1) by (auto simp: isspace_def)
  have "skip_whitespace_and_comments s = unread_char (Some x) s0"
    using r x by (subst skip_whitespace_and_comments.simps) (simp add: ws_loop_stop)
  then show ?thesis using peek_view [OF r nl] by simp
qed

lemma skip_Nil:
  assumes p: "pending s = []"
  shows "skip_whitespace_and_comments s = s"
  using read_char_Nil [OF p]
  by (subst skip_whitespace_and_comments.simps)
     (simp add: ws_loop_stop isspace_def unread_char_def)

text \<open>
  The chain of tests at the end of \<open>next_token\<close>, on the character \<open>x\<close> that was looked
  at and given back; \<open>next_token_dispatch\<close> shows that this is what \<open>next_token\<close> does.
\<close>

definition dispatch :: "char \<Rightarrow> lexer \<Rightarrow> Token \<times> lexer" where
  "dispatch x s =
     (if isalpha (Some x) \<or> x = CHR ''_'' then read_identifier_or_keyword s
      else if isdigit (Some x) then read_number s
      else if x = DQ then read_string s
      else if x = SQ then read_char_literal s
      else read_operator_or_separator s)"

lemma next_token_dispatch:
  assumes p: "pending (skip_whitespace_and_comments s) = x # xs" and nl: "x \<noteq> NL"
  shows "\<exists>t. view t = view (skip_whitespace_and_comments s) \<and> next_token s = dispatch x t"
proof -
  let ?s1 = "skip_whitespace_and_comments s"
  from read_char_Cons [OF p] obtain s2 where r2: "read_char ?s1 = (Some x, s2)" by blast
  let ?s3 = "unread_char (Some x) s2"
  have v3: "view ?s3 = view ?s1" by (rule peek_view [OF r2 nl])
  then have "pending ?s3 = x # xs" using p by (simp add: view_def)
  from read_char_Cons [OF this] obtain s4 where r4: "read_char ?s3 = (Some x, s4)" by blast
  let ?s5 = "unread_char (Some x) s4"
  have v5: "view ?s5 = view ?s3" by (rule peek_view [OF r4 nl])
  have "next_token s = dispatch x ?s5"
    using r2 r4 by (simp add: next_token_def dispatch_def Let_def)
  with v3 v5 show ?thesis by auto
qed

lemma next_token_Nil:
  assumes p: "pending (skip_whitespace_and_comments s) = []"
  shows "next_token s =
     (make_token TOK_EOF ''EOF'' (g_line (skip_whitespace_and_comments s))
        (g_col (skip_whitespace_and_comments s)), skip_whitespace_and_comments s)"
  using read_char_Nil [OF p] by (simp add: next_token_def Let_def)

section \<open>How deep the pushback gets\<close>

lemma read_char_depth:
  "read_char s = (c, s') \<Longrightarrow>
     pb_peak s' = pb_peak s \<and>
     length (pushback s') \<le> length (pushback s) \<and>
     length (pushback s') + length (ostr c) \<le> max (length (pushback s)) 1"
  by (auto simp: read_char_def fgetc_def split: list.splits if_splits)

lemma unread_char_depth:
  "length (pushback (unread_char c s)) = length (pushback s) + length (ostr c) \<and>
   pb_peak (unread_char c s) \<le> max (pb_peak s) (length (pushback s) + length (ostr c))"
  by (auto simp: unread_char_def ungetc_def Let_def split: option.splits)

lemma ws_loop_depth:
  "ws_loop c s = (c', s') \<Longrightarrow>
     pb_peak s' = pb_peak s \<and>
     length (pushback s') + length (ostr c') \<le> max (length (pushback s) + length (ostr c)) 1"
proof (induction c s rule: ws_loop.induct)
  case (1 c s)
  show ?case
  proof (cases "isspace c")
    case False
    with "1.prems" show ?thesis by (simp add: ws_loop_stop)
  next
    case True
    obtain c1 s1 where r: "read_char s = (c1, s1)" by (cases "read_char s")
    from True r "1.prems" have "ws_loop c1 s1 = (c', s')" by (simp add: ws_loop_step)
    from "1.IH" [OF True r [symmetric] this] read_char_depth [OF r]
    show ?thesis by auto
  qed
qed

lemma line_loop_depth:
  "line_loop c s = (c', s') \<Longrightarrow>
     pb_peak s' = pb_peak s \<and>
     length (pushback s') + length (ostr c') \<le> max (length (pushback s) + length (ostr c)) 1"
proof (induction c s rule: line_loop.induct)
  case (1 c s)
  show ?case
  proof (cases "c \<noteq> Some NL \<and> c \<noteq> None")
    case False
    with "1.prems" show ?thesis by (auto simp: line_loop_stop)
  next
    case True
    obtain c1 s1 where r: "read_char s = (c1, s1)" by (cases "read_char s")
    from True r "1.prems" have "line_loop c1 s1 = (c', s')" by (simp add: line_loop_step)
    from "1.IH" [OF True r [symmetric] this] read_char_depth [OF r]
    show ?thesis by auto
  qed
qed

lemma block_loop_depth:
  "block_loop p c s = (c', s') \<Longrightarrow>
     pb_peak s' = pb_peak s \<and>
     length (pushback s') + length (ostr c') \<le> max (length (pushback s) + length (ostr c)) 1"
proof (induction p c s rule: block_loop.induct)
  case (1 p c s)
  show ?case
  proof (cases c)
    case None
    with "1.prems" show ?thesis by (simp add: block_loop_None)
  next
    case (Some x)
    show ?thesis
    proof (cases "p = CHR ''*'' \<and> x = CHR ''/''")
      case True
      with Some "1.prems" show ?thesis by (simp add: block_loop_close)
    next
      case False
      obtain c1 s1 where r: "read_char s = (c1, s1)" by (cases "read_char s")
      from False Some r "1.prems" have "block_loop x c1 s1 = (c', s')"
        by (simp add: block_loop_step)
      from "1.IH" [OF Some False r [symmetric] this] read_char_depth [OF r] Some
      show ?thesis by auto
    qed
  qed
qed

text \<open>The bound that every call keeps: at most two characters pending, now and before.\<close>

definition shallow :: "lexer \<Rightarrow> bool" where
  "shallow s \<longleftrightarrow> length (pushback s) \<le> 2 \<and> pb_peak s \<le> 2"

lemma skip_shallow:
  "shallow s \<Longrightarrow> shallow (skip_whitespace_and_comments s)"
proof (induction s rule: skip_whitespace_and_comments.induct)
  case (1 s)
  obtain c0 s0 where r0: "read_char s = (c0, s0)" by (cases "read_char s")
  obtain c s1 where w: "ws_loop c0 s0 = (c, s1)" by (cases "ws_loop c0 s0")
  note d0 = read_char_depth [OF r0]
  note d1 = ws_loop_depth [OF w]
  show ?case
  proof (cases "c = Some CHR ''/''")
    case False
    then have "skip_whitespace_and_comments s = unread_char c s1"
      using r0 w by (subst skip_whitespace_and_comments.simps) simp
    then show ?thesis
      using d0 d1 unread_char_depth [of c s1] "1.prems" by (auto simp: shallow_def)
  next
    case True
    obtain nx s2 where r2: "read_char s1 = (nx, s2)" by (cases "read_char s1")
    note d2 = read_char_depth [OF r2]
    have sh2: "shallow s2" "length (pushback s2) + length (ostr nx) \<le> 1"
      using d0 d1 d2 True "1.prems" by (auto simp: shallow_def)
    obtain ch s3 where r3: "read_char s2 = (ch, s3)" by (cases "read_char s2")
    note d3 = read_char_depth [OF r3]
    show ?thesis
    proof (cases "nx = Some CHR ''/''")
      case nx: True
      obtain ch' s4 where l: "line_loop ch s3 = (ch', s4)" by (cases "line_loop ch s3")
      have eq: "skip_whitespace_and_comments s = skip_whitespace_and_comments s4"
        using r0 w True r2 nx r3 l by (subst skip_whitespace_and_comments.simps) simp
      have "shallow s4" using sh2 d3 line_loop_depth [OF l] by (auto simp: shallow_def)
      from "1.IH"(1) [OF r0 [symmetric] w [symmetric] True r2 [symmetric] nx r3 [symmetric]
                        l [symmetric] this] eq
      show ?thesis by simp
    next
      case nnx: False
      show ?thesis
      proof (cases "nx = Some CHR ''*''")
        case st: True
        obtain ch' s4 where l: "block_loop NUL ch s3 = (ch', s4)"
          by (cases "block_loop NUL ch s3")
        have eq: "skip_whitespace_and_comments s = skip_whitespace_and_comments s4"
          using r0 w True r2 nnx st r3 l by (subst skip_whitespace_and_comments.simps) simp
        have "shallow s4" using sh2 d3 block_loop_depth [OF l] by (auto simp: shallow_def)
        from "1.IH"(2) [OF r0 [symmetric] w [symmetric] True r2 [symmetric] nnx st
                          r3 [symmetric] l [symmetric] this] eq
        show ?thesis by simp
      next
        case False
        have eq: "skip_whitespace_and_comments s = unread_char c (unread_char nx s2)"
          using r0 w True r2 nnx False by (subst skip_whitespace_and_comments.simps) simp
        show ?thesis
          using eq sh2 True unread_char_depth [of nx s2]
            unread_char_depth [of c "unread_char nx s2"]
          by (auto simp: shallow_def)
      qed
    qed
  qed
qed

lemma ident_loop_stop:
  "\<not> (isalnum c \<or> c = Some CHR ''_'') \<Longrightarrow> ident_loop c buf s = (c, buf, s)"
  by (subst ident_loop.simps) auto

lemma ident_loop_step:
  "isalnum c \<or> c = Some CHR ''_'' \<Longrightarrow> read_char s = (c1, s1) \<Longrightarrow>
     ident_loop c buf s = ident_loop c1 (put (MAX_LEXEME_LEN - 1) buf (to_char c)) s1"
  by (subst ident_loop.simps) auto

lemma digit_loop_stop: "\<not> isdigit c \<Longrightarrow> digit_loop c buf s = (c, buf, s)"
  by (subst digit_loop.simps) auto

lemma digit_loop_step:
  "isdigit c \<Longrightarrow> read_char s = (c1, s1) \<Longrightarrow>
     digit_loop c buf s = digit_loop c1 (put (MAX_LEXEME_LEN - 1) buf (to_char c)) s1"
  by (subst digit_loop.simps) auto

lemma string_loop_None: "string_loop None buf s = (Some (None, buf), s)"
  by (subst string_loop.simps) simp

lemma string_loop_DQ: "string_loop (Some DQ) buf s = (Some (Some DQ, buf), s)"
  by (subst string_loop.simps) simp

lemma string_loop_NL: "string_loop (Some NL) buf s = (None, s)"
  by (subst string_loop.simps) simp

lemma string_loop_BS_None:
  "read_char s = (None, s1) \<Longrightarrow> string_loop (Some BS) buf s = (None, s1)"
  by (subst string_loop.simps) simp

lemma string_loop_BS_Some:
  "read_char s = (Some y, s1) \<Longrightarrow> read_char s1 = (c2, s2) \<Longrightarrow>
     string_loop (Some BS) buf s =
       string_loop c2 (put (MAX_LEXEME_LEN - 2) (put (MAX_LEXEME_LEN - 2) buf BS) y) s2"
  by (subst string_loop.simps) simp

lemma string_loop_plain:
  "x \<noteq> DQ \<Longrightarrow> x \<noteq> NL \<Longrightarrow> x \<noteq> BS \<Longrightarrow> read_char s = (c2, s2) \<Longrightarrow>
     string_loop (Some x) buf s = string_loop c2 (put (MAX_LEXEME_LEN - 1) buf x) s2"
  by (subst string_loop.simps) simp

lemma ident_loop_depth:
  "ident_loop c buf s = (c', buf', s') \<Longrightarrow>
     pb_peak s' = pb_peak s \<and>
     length (pushback s') + length (ostr c') \<le> max (length (pushback s) + length (ostr c)) 1"
proof (induction c buf s rule: ident_loop.induct)
  case (1 c buf s)
  show ?case
  proof (cases "isalnum c \<or> c = Some CHR ''_''")
    case False
    with "1.prems" show ?thesis by (simp add: ident_loop_stop)
  next
    case True
    obtain c1 s1 where r: "read_char s = (c1, s1)" by (cases "read_char s")
    from True r "1.prems"
    have "ident_loop c1 (put (MAX_LEXEME_LEN - 1) buf (to_char c)) s1 = (c', buf', s')"
      by (simp add: ident_loop_step)
    from "1.IH" [OF True r [symmetric] this] read_char_depth [OF r]
    show ?thesis by auto
  qed
qed

lemma digit_loop_depth:
  "digit_loop c buf s = (c', buf', s') \<Longrightarrow>
     pb_peak s' = pb_peak s \<and>
     length (pushback s') + length (ostr c') \<le> max (length (pushback s) + length (ostr c)) 1"
proof (induction c buf s rule: digit_loop.induct)
  case (1 c buf s)
  show ?case
  proof (cases "isdigit c")
    case False
    with "1.prems" show ?thesis by (simp add: digit_loop_stop)
  next
    case True
    obtain c1 s1 where r: "read_char s = (c1, s1)" by (cases "read_char s")
    from True r "1.prems"
    have "digit_loop c1 (put (MAX_LEXEME_LEN - 1) buf (to_char c)) s1 = (c', buf', s')"
      by (simp add: digit_loop_step)
    from "1.IH" [OF True r [symmetric] this] read_char_depth [OF r]
    show ?thesis by auto
  qed
qed

lemma string_loop_depth:
  "string_loop c buf s = (r, s') \<Longrightarrow>
     pb_peak s' = pb_peak s \<and> length (pushback s') \<le> length (pushback s)"
proof (induction c buf s rule: string_loop.induct)
  case (1 c buf s)
  show ?case
  proof (cases c)
    case None
    with "1.prems" show ?thesis by (simp add: string_loop_None)
  next
    case (Some x)
    obtain c1 s1 where r1: "read_char s = (c1, s1)" by (cases "read_char s")
    note d1 = read_char_depth [OF r1]
    consider "x = DQ" | "x = NL" | "x = BS" "c1 = None" | y where "x = BS" "c1 = Some y"
      | "x \<noteq> DQ" "x \<noteq> NL" "x \<noteq> BS"
      by (cases c1) auto
    then show ?thesis
    proof cases
      case 1
      with Some "1.prems" show ?thesis by (simp add: string_loop_DQ)
    next
      case 2
      with Some "1.prems" show ?thesis by (simp add: string_loop_NL)
    next
      case 3
      with Some "1.prems" r1 d1 show ?thesis by (auto simp: string_loop_BS_None)
    next
      case 4
      obtain c2 s2 where r2: "read_char s1 = (c2, s2)" by (cases "read_char s1")
      note d2 = read_char_depth [OF r2]
      have "string_loop c2 (put (MAX_LEXEME_LEN - 2) (put (MAX_LEXEME_LEN - 2) buf x) y) s2
              = (r, s')"
        using 4 Some "1.prems" r1 r2 by (simp add: string_loop_BS_Some)
      from "1.IH"(1) [OF Some _ _ _ r1 [symmetric] _ r2 [symmetric] this] 4 d1 d2
      show ?thesis by auto
    next
      case 5
      have "string_loop c1 (put (MAX_LEXEME_LEN - 1) buf x) s1 = (r, s')"
        using 5 Some "1.prems" r1 by (simp add: string_loop_plain)
      from "1.IH"(2) [OF Some 5 r1 [symmetric] this] d1
      show ?thesis by auto
    qed
  qed
qed

lemma read_identifier_shallow:
  assumes "shallow s"
  shows "shallow (snd (read_identifier_or_keyword s))"
proof -
  obtain c0 s0 where r0: "read_char s = (c0, s0)" by (cases "read_char s")
  obtain c buf s1 where l: "ident_loop c0 [] s0 = (c, buf, s1)"
    by (cases "ident_loop c0 [] s0")
  have "snd (read_identifier_or_keyword s) = unread_char c s1"
    using r0 l by (simp add: read_identifier_or_keyword_def Let_def)
  then show ?thesis
    using assms read_char_depth [OF r0] ident_loop_depth [OF l] unread_char_depth [of c s1]
    by (auto simp: shallow_def)
qed

lemma read_number_shallow:
  assumes "shallow s"
  shows "shallow (snd (read_number s))"
proof -
  obtain c0 s0 where r0: "read_char s = (c0, s0)" by (cases "read_char s")
  obtain c buf s1 where l: "digit_loop c0 [] s0 = (c, buf, s1)"
    by (cases "digit_loop c0 [] s0")
  note d = read_char_depth [OF r0] digit_loop_depth [OF l]
  show ?thesis
  proof (cases "c = Some CHR ''.''")
    case False
    then have "snd (read_number s) = unread_char c s1"
      using r0 l by (simp add: read_number_def Let_def)
    then show ?thesis
      using assms d unread_char_depth [of c s1] by (auto simp: shallow_def)
  next
    case True
    obtain c1 s2 where r1: "read_char s1 = (c1, s2)" by (cases "read_char s1")
    obtain c2 buf2 s3 where
      l2: "digit_loop c1 (put (MAX_LEXEME_LEN - 1) buf CHR ''.'') s2 = (c2, buf2, s3)"
      by (cases "digit_loop c1 (put (MAX_LEXEME_LEN - 1) buf CHR ''.'') s2")
    have "snd (read_number s) = unread_char c2 s3"
      using True r0 l r1 l2 by (simp add: read_number_def Let_def)
    then show ?thesis
      using assms d read_char_depth [OF r1] digit_loop_depth [OF l2]
        unread_char_depth [of c2 s3]
      by (auto simp: shallow_def)
  qed
qed

lemma read_string_shallow:
  assumes "shallow s"
  shows "shallow (snd (read_string s))"
proof -
  obtain q s0 where r0: "read_char s = (q, s0)" by (cases "read_char s")
  obtain c s1 where r1: "read_char s0 = (c, s1)" by (cases "read_char s0")
  obtain r s2 where l: "string_loop c [] s1 = (r, s2)" by (cases "string_loop c [] s1")
  have "snd (read_string s) = s2"
    using r0 r1 l by (simp add: read_string_def Let_def split: option.splits)
  then show ?thesis
    using assms read_char_depth [OF r0] read_char_depth [OF r1] string_loop_depth [OF l]
    by (auto simp: shallow_def)
qed

lemma read_char_shallow:
  "shallow s \<Longrightarrow> shallow (snd (read_char s))"
  using read_char_depth [of s "fst (read_char s)" "snd (read_char s)"]
  by (auto simp: shallow_def)

lemma read_char_literal_shallow:
  assumes "shallow s"
  shows "shallow (snd (read_char_literal s))"
proof -
  obtain q s0 where r0: "read_char s = (q, s0)" by (cases "read_char s")
  obtain c s1 where r1: "read_char s0 = (c, s1)" by (cases "read_char s0")
  obtain c1 s2 where r2: "read_char s1 = (c1, s2)" by (cases "read_char s1")
  obtain c3 s3 where r3: "read_char s2 = (c3, s3)" by (cases "read_char s2")
  have sh: "shallow s0" "shallow s1" "shallow s2" "shallow s3"
    using assms read_char_shallow [of s] read_char_shallow [of s0] read_char_shallow [of s1]
      read_char_shallow [of s2] r0 r1 r2 r3 by simp_all
  have "snd (read_char_literal s) \<in> {s1, s2, s3, snd (read_char s1)}"
    using r0 r1 r2 r3
    by (auto simp: read_char_literal_def Let_def split: prod.splits option.splits)
  then show ?thesis using sh r2 by auto
qed

lemma read_operator_shallow:
  assumes "shallow s"
  shows "shallow (snd (read_operator_or_separator s))"
proof -
  obtain c1 s1 where r1: "read_char s = (c1, s1)" by (cases "read_char s")
  obtain c2 s2 where r2: "read_char s1 = (c2, s2)" by (cases "read_char s1")
  have "snd (read_operator_or_separator s) \<in> {s1, s2, unread_char c2 s2}"
    using r1 r2 by (simp add: read_operator_or_separator_def Let_def)
  then show ?thesis
    using assms read_char_depth [OF r1] read_char_depth [OF r2] unread_char_depth [of c2 s2]
    by (auto simp: shallow_def)
qed

lemma next_token_shallow:
  assumes "shallow s"
  shows "shallow (snd (next_token s))"
proof -
  let ?s1 = "skip_whitespace_and_comments s"
  have s1: "shallow ?s1" by (rule skip_shallow [OF assms])
  obtain c s2 where r2: "read_char ?s1 = (c, s2)" by (cases "read_char ?s1")
  show ?thesis
  proof (cases c)
    case None
    then have "snd (next_token s) = s2" using r2 by (simp add: next_token_def Let_def)
    then show ?thesis using s1 read_char_shallow [of ?s1] r2 by simp
  next
    case (Some x)
    let ?s3 = "unread_char c s2"
    obtain c' s4 where r4: "read_char ?s3 = (c', s4)" by (cases "read_char ?s3")
    let ?s5 = "unread_char c' s4"
    have s3: "shallow ?s3"
      using s1 read_char_depth [OF r2] unread_char_depth [of c s2] by (auto simp: shallow_def)
    have s5: "shallow ?s5"
      using s3 read_char_depth [OF r4] unread_char_depth [of c' s4] by (auto simp: shallow_def)
    have "snd (next_token s) \<in> {snd (read_identifier_or_keyword ?s5), snd (read_number ?s5),
            snd (read_string ?s5), snd (read_char_literal ?s5),
            snd (read_operator_or_separator ?s5)}"
      using Some r2 r4 by (simp add: next_token_def Let_def)
    then show ?thesis
      using read_identifier_shallow [OF s5] read_number_shallow [OF s5]
        read_string_shallow [OF s5] read_char_literal_shallow [OF s5]
        read_operator_shallow [OF s5]
      by auto
  qed
qed

lemma calls_shallow: "shallow s \<Longrightarrow> shallow (calls n s)"
  by (induction n arbitrary: s) (simp_all add: next_token_shallow)

section \<open>The bound on the pushback\<close>

text \<open>
  C2, the claim as it is written, fails: on the input \<open>/x\<close> the skipper reads the slash and
  the \<open>x\<close> and gives both back, so two characters are pending in the pushback.
\<close>

theorem two_characters_pending:
  "pushback (skip_whitespace_and_comments (init_state ''/x'')) = ''/x''"
  by code_simp

text \<open>
  C2, amended. At every point of a scan at most two characters are pending in the pushback:
  after any number of calls of \<open>next_token\<close> on any input, the pushback holds at most two
  characters, and it has never held more than two.
\<close>

theorem pushback_at_most_two:
  "length (pushback (calls n (init_state inp))) \<le> 2 \<and> pb_peak (calls n (init_state inp)) \<le> 2"
proof -
  have "shallow (init_state inp)" by (simp add: shallow_def init_state_def)
  then have "shallow (calls n (init_state inp))" by (rule calls_shallow)
  then show ?thesis by (simp add: shallow_def)
qed

section \<open>The position after a newline that was given back\<close>

text \<open>
  C1. The code does not do what the claim says. On the input of \<open>a\<close>, a newline and \<open>b\<close>,
  the identifier \<open>a\<close> is ended by the newline; \<open>read_identifier_or_keyword\<close> gives the
  newline back, \<open>unread_char\<close> does not take back the line it counted, and the skipper
  counts it again when it reads the newline a second time. The token \<open>b\<close>, whose first
  character is in line 2, column 1, is reported in line 3.
\<close>

theorem newline_counted_twice:
  "nth_token 0 (init_state ''a\<newline>b'') =
     \<lparr>type = TOK_IDENTIFIER, lexeme = ''a'', line = 1, col = 1\<rparr>
   \<and> nth_token 1 (init_state ''a\<newline>b'') =
     \<lparr>type = TOK_IDENTIFIER, lexeme = ''b'', line = 3, col = 1\<rparr>"
  by code_simp

section \<open>The character NUL in the operator scanner\<close>

text \<open>
  C7. The code does not do what the claim says on the character NUL. It is no separator, it
  starts no two-character operator and it is none of the sixteen single-character operators,
  so the claim makes it an Unknown token; but \<open>strchr\<close> finds NUL in every string (its
  terminator), and \<open>next_token\<close> returns an Operator token, with an empty text.
\<close>

theorem nul_is_operator:
  "nth_token 0 (init_state [NUL]) = \<lparr>type = TOK_OPERATOR, lexeme = [], line = 1, col = 1\<rparr>"
  by code_simp

section \<open>Every call reads a prefix of what is pending\<close>

lemma ident_loop_suffix:
  "ident_loop c buf s = (c', buf', s') \<Longrightarrow> suffix (ostr c' @ pending s') (ostr c @ pending s)"
proof (induction c buf s rule: ident_loop.induct)
  case (1 c buf s)
  show ?case
  proof (cases "isalnum c \<or> c = Some CHR ''_''")
    case False
    with "1.prems" show ?thesis by (simp add: ident_loop_stop)
  next
    case True
    obtain c1 s1 where r: "read_char s = (c1, s1)" by (cases "read_char s")
    from True r "1.prems"
    have "ident_loop c1 (put (MAX_LEXEME_LEN - 1) buf (to_char c)) s1 = (c', buf', s')"
      by (simp add: ident_loop_step)
    from "1.IH" [OF True r [symmetric] this]
    have "suffix (ostr c' @ pending s') (ostr c1 @ pending s1)" .
    also have "ostr c1 @ pending s1 = pending s" using read_char_pending [OF r] by simp
    finally show ?thesis by (simp add: suffix_appendI)
  qed
qed

lemma digit_loop_suffix:
  "digit_loop c buf s = (c', buf', s') \<Longrightarrow> suffix (ostr c' @ pending s') (ostr c @ pending s)"
proof (induction c buf s rule: digit_loop.induct)
  case (1 c buf s)
  show ?case
  proof (cases "isdigit c")
    case False
    with "1.prems" show ?thesis by (simp add: digit_loop_stop)
  next
    case True
    obtain c1 s1 where r: "read_char s = (c1, s1)" by (cases "read_char s")
    from True r "1.prems"
    have "digit_loop c1 (put (MAX_LEXEME_LEN - 1) buf (to_char c)) s1 = (c', buf', s')"
      by (simp add: digit_loop_step)
    from "1.IH" [OF True r [symmetric] this]
    have "suffix (ostr c' @ pending s') (ostr c1 @ pending s1)" .
    also have "ostr c1 @ pending s1 = pending s" using read_char_pending [OF r] by simp
    finally show ?thesis by (simp add: suffix_appendI)
  qed
qed

lemma read_char_suffix: "read_char s = (c, s') \<Longrightarrow> suffix (pending s') (pending s)"
  using read_char_pending [of s c s'] by (simp add: suffix_appendI)

lemma string_loop_suffix:
  "string_loop c buf s = (r, s') \<Longrightarrow> suffix (pending s') (pending s)"
proof (induction c buf s rule: string_loop.induct)
  case (1 c buf s)
  show ?case
  proof (cases c)
    case None
    with "1.prems" show ?thesis by (simp add: string_loop_None)
  next
    case (Some x)
    obtain c1 s1 where r1: "read_char s = (c1, s1)" by (cases "read_char s")
    note d1 = read_char_suffix [OF r1]
    consider "x = DQ" | "x = NL" | "x = BS" "c1 = None" | y where "x = BS" "c1 = Some y"
      | "x \<noteq> DQ" "x \<noteq> NL" "x \<noteq> BS"
      by (cases c1) auto
    then show ?thesis
    proof cases
      case 1
      with Some "1.prems" show ?thesis by (simp add: string_loop_DQ)
    next
      case 2
      with Some "1.prems" show ?thesis by (simp add: string_loop_NL)
    next
      case 3
      with Some "1.prems" r1 d1 show ?thesis by (auto simp: string_loop_BS_None)
    next
      case 4
      obtain c2 s2 where r2: "read_char s1 = (c2, s2)" by (cases "read_char s1")
      note d2 = read_char_suffix [OF r2]
      have "string_loop c2 (put (MAX_LEXEME_LEN - 2) (put (MAX_LEXEME_LEN - 2) buf x) y) s2
              = (r, s')"
        using 4 Some "1.prems" r1 r2 by (simp add: string_loop_BS_Some)
      from "1.IH"(1) [OF Some _ _ _ r1 [symmetric] _ r2 [symmetric] this] 4 d1 d2
      show ?thesis by (auto intro: suffix_order.trans)
    next
      case 5
      have "string_loop c1 (put (MAX_LEXEME_LEN - 1) buf x) s1 = (r, s')"
        using 5 Some "1.prems" r1 by (simp add: string_loop_plain)
      from "1.IH"(2) [OF Some 5 r1 [symmetric] this] d1
      show ?thesis by (auto intro: suffix_order.trans)
    qed
  qed
qed

text \<open>The characters that continue an identifier.\<close>

abbreviation idchar :: "char option \<Rightarrow> bool" where
  "idchar c \<equiv> isalnum c \<or> c = Some CHR ''_''"

lemma read_identifier_suffix:
  assumes p: "pending s = x # xs" and x: "idchar (Some x)"
  shows "suffix (pending (snd (read_identifier_or_keyword s))) xs"
proof -
  from read_char_Cons [OF p] obtain s0 where
    r0: "read_char s = (Some x, s0)" and p0: "pending s0 = xs" by (auto simp: view_def)
  obtain c1 s1 where r1: "read_char s0 = (c1, s1)" by (cases "read_char s0")
  obtain c buf s2 where l: "ident_loop (Some x) [] s0 = (c, buf, s2)"
    by (cases "ident_loop (Some x) [] s0")
  then have "ident_loop c1 (put (MAX_LEXEME_LEN - 1) [] (to_char (Some x))) s1 = (c, buf, s2)"
    using x r1 by (simp add: ident_loop_step)
  from ident_loop_suffix [OF this] read_char_pending [OF r1] p0
  have "suffix (ostr c @ pending s2) xs" by simp
  moreover have "snd (read_identifier_or_keyword s) = unread_char c s2"
    using r0 l by (simp add: read_identifier_or_keyword_def Let_def)
  ultimately show ?thesis by (simp add: unread_char_pending)
qed

lemma read_number_suffix:
  assumes p: "pending s = x # xs" and x: "isdigit (Some x)"
  shows "suffix (pending (snd (read_number s))) xs"
proof -
  from read_char_Cons [OF p] obtain s0 where
    r0: "read_char s = (Some x, s0)" and p0: "pending s0 = xs" by (auto simp: view_def)
  obtain c1 s1 where r1: "read_char s0 = (c1, s1)" by (cases "read_char s0")
  obtain c buf s2 where l: "digit_loop (Some x) [] s0 = (c, buf, s2)"
    by (cases "digit_loop (Some x) [] s0")
  then have "digit_loop c1 (put (MAX_LEXEME_LEN - 1) [] (to_char (Some x))) s1 = (c, buf, s2)"
    using x r1 by (simp add: digit_loop_step)
  from digit_loop_suffix [OF this] read_char_pending [OF r1] p0
  have a: "suffix (ostr c @ pending s2) xs" by simp
  show ?thesis
  proof (cases "c = Some CHR ''.''")
    case False
    then have "snd (read_number s) = unread_char c s2"
      using r0 l by (simp add: read_number_def Let_def)
    then show ?thesis using a by (simp add: unread_char_pending)
  next
    case True
    obtain c3 s3 where r3: "read_char s2 = (c3, s3)" by (cases "read_char s2")
    obtain c4 buf4 s4 where
      l4: "digit_loop c3 (put (MAX_LEXEME_LEN - 1) buf CHR ''.'') s3 = (c4, buf4, s4)"
      by (cases "digit_loop c3 (put (MAX_LEXEME_LEN - 1) buf CHR ''.'') s3")
    from digit_loop_suffix [OF l4] read_char_pending [OF r3]
    have "suffix (ostr c4 @ pending s4) (pending s2)" by simp
    also have "suffix (pending s2) (ostr c @ pending s2)" by (simp add: suffix_appendI)
    also note a
    finally have "suffix (ostr c4 @ pending s4) xs" .
    moreover have "snd (read_number s) = unread_char c4 s4"
      using True r0 l r3 l4 by (simp add: read_number_def Let_def)
    ultimately show ?thesis by (simp add: unread_char_pending)
  qed
qed

lemma read_string_suffix:
  assumes p: "pending s = x # xs"
  shows "suffix (pending (snd (read_string s))) xs"
proof -
  from read_char_Cons [OF p] obtain s0 where
    r0: "read_char s = (Some x, s0)" and p0: "pending s0 = xs" by (auto simp: view_def)
  obtain c s1 where r1: "read_char s0 = (c, s1)" by (cases "read_char s0")
  obtain r s2 where l: "string_loop c [] s1 = (r, s2)" by (cases "string_loop c [] s1")
  have "snd (read_string s) = s2"
    using r0 r1 l by (simp add: read_string_def Let_def split: option.splits)
  moreover have "suffix (pending s2) (pending s0)"
    using string_loop_suffix [OF l] read_char_suffix [OF r1] by (rule suffix_order.trans)
  ultimately show ?thesis using p0 by simp
qed

lemma read_char_literal_suffix:
  assumes p: "pending s = x # xs"
  shows "suffix (pending (snd (read_char_literal s))) xs"
proof -
  from read_char_Cons [OF p] obtain s0 where
    r0: "read_char s = (Some x, s0)" and p0: "pending s0 = xs" by (auto simp: view_def)
  obtain c s1 where r1: "read_char s0 = (c, s1)" by (cases "read_char s0")
  obtain c1 s2 where r2: "read_char s1 = (c1, s2)" by (cases "read_char s1")
  obtain c3 s3 where r3: "read_char s2 = (c3, s3)" by (cases "read_char s2")
  have sf: "suffix (pending s1) xs" "suffix (pending s2) xs" "suffix (pending s3) xs"
    using read_char_suffix [OF r1] read_char_suffix [OF r2] read_char_suffix [OF r3] p0
    by (auto intro: suffix_order.trans)
  have "snd (read_char_literal s) \<in> {s1, s2, s3, snd (read_char s1)}"
    using r0 r1 r2 r3
    by (auto simp: read_char_literal_def Let_def split: prod.splits option.splits)
  then show ?thesis using sf r2 by auto
qed

lemma read_operator_suffix:
  assumes p: "pending s = x # xs"
  shows "suffix (pending (snd (read_operator_or_separator s))) xs"
proof -
  from read_char_Cons [OF p] obtain s1 where
    r1: "read_char s = (Some x, s1)" and p1: "pending s1 = xs" by (auto simp: view_def)
  obtain c2 s2 where r2: "read_char s1 = (c2, s2)" by (cases "read_char s1")
  have "snd (read_operator_or_separator s) \<in> {s1, s2, unread_char c2 s2}"
    using r1 r2 by (simp add: read_operator_or_separator_def Let_def)
  then show ?thesis
    using p1 read_char_suffix [OF r2] read_char_pending [OF r2]
    by (auto simp: unread_char_pending)
qed

lemma dispatch_suffix:
  assumes p: "pending t = x # xs"
  shows "suffix (pending (snd (dispatch x t))) xs"
  using read_identifier_suffix [OF p] read_number_suffix [OF p] read_string_suffix [OF p]
    read_char_literal_suffix [OF p] read_operator_suffix [OF p]
  by (auto simp: dispatch_def isalnum_def)

lemma make_token_sel [simp]:
  "type (make_token ty lx l c) = ty" "line (make_token ty lx l c) = l"
  "col (make_token ty lx l c) = c"
  "lexeme (make_token ty lx l c) = take (MAX_LEXEME_LEN - 1) (cstr lx)"
  by (simp_all add: make_token_def)

lemma read_identifier_not_EOF: "type (fst (read_identifier_or_keyword t)) \<noteq> TOK_EOF"
  by (simp add: read_identifier_or_keyword_def Let_def split: prod.splits)

lemma read_number_not_EOF: "type (fst (read_number t)) \<noteq> TOK_EOF"
  by (simp add: read_number_def Let_def split: prod.splits)

lemma read_string_not_EOF: "type (fst (read_string t)) \<noteq> TOK_EOF"
  by (simp add: read_string_def Let_def split: prod.splits option.splits)

lemma read_char_literal_not_EOF: "type (fst (read_char_literal t)) \<noteq> TOK_EOF"
  by (simp add: read_char_literal_def Let_def split: prod.splits option.splits)

lemma read_operator_not_EOF: "type (fst (read_operator_or_separator t)) \<noteq> TOK_EOF"
  by (simp add: read_operator_or_separator_def Let_def split: prod.splits)

lemma dispatch_not_EOF: "type (fst (dispatch x t)) \<noteq> TOK_EOF"
  by (simp add: dispatch_def read_identifier_not_EOF read_number_not_EOF read_string_not_EOF
        read_char_literal_not_EOF read_operator_not_EOF)

section \<open>Progress and the end of the input\<close>

lemma skip_suffix: "suffix (pending (skip_whitespace_and_comments s)) (pending s)"
proof (induction s rule: skip_whitespace_and_comments.induct)
  case (1 s)
  obtain c0 s0 where r0: "read_char s = (c0, s0)" by (cases "read_char s")
  obtain c s1 where w: "ws_loop c0 s0 = (c, s1)" by (cases "ws_loop c0 s0")
  have a1: "suffix (ostr c @ pending s1) (pending s)"
    using ws_loop_suffix [OF w] read_char_pending [OF r0] by simp
  show ?case
  proof (cases "c = Some CHR ''/''")
    case False
    then have "skip_whitespace_and_comments s = unread_char c s1"
      using r0 w by (subst skip_whitespace_and_comments.simps) simp
    then show ?thesis using a1 by (simp add: unread_char_pending)
  next
    case True
    obtain nx s2 where r2: "read_char s1 = (nx, s2)" by (cases "read_char s1")
    obtain ch s3 where r3: "read_char s2 = (ch, s3)" by (cases "read_char s2")
    have a2: "ostr nx @ pending s2 = pending s1" using read_char_pending [OF r2] by simp
    have a3: "suffix (ostr ch @ pending s3) (pending s)"
    proof -
      have "suffix (ostr ch @ pending s3) (ostr nx @ pending s2)"
        using read_char_pending [OF r3] by (simp add: suffix_appendI)
      also have "suffix (ostr nx @ pending s2) (ostr c @ pending s1)"
        using a2 by (simp add: suffix_appendI)
      also note a1
      finally show ?thesis .
    qed
    show ?thesis
    proof (cases "nx = Some CHR ''/''")
      case nx: True
      obtain ch' s4 where l: "line_loop ch s3 = (ch', s4)" by (cases "line_loop ch s3")
      have eq: "skip_whitespace_and_comments s = skip_whitespace_and_comments s4"
        using r0 w True r2 nx r3 l by (subst skip_whitespace_and_comments.simps) simp
      have "suffix (pending s4) (ostr ch' @ pending s4)" by (simp add: suffix_appendI)
      also note line_loop_suffix [OF l]
      also note a3
      finally have "suffix (pending s4) (pending s)" .
      with "1.IH"(1) [OF r0 [symmetric] w [symmetric] True r2 [symmetric] nx r3 [symmetric]
                        l [symmetric]] eq
      show ?thesis by (auto intro: suffix_order.trans)
    next
      case nnx: False
      show ?thesis
      proof (cases "nx = Some CHR ''*''")
        case st: True
        obtain ch' s4 where l: "block_loop NUL ch s3 = (ch', s4)"
          by (cases "block_loop NUL ch s3")
        have eq: "skip_whitespace_and_comments s = skip_whitespace_and_comments s4"
          using r0 w True r2 nnx st r3 l by (subst skip_whitespace_and_comments.simps) simp
        have "suffix (pending s4) (ostr ch' @ pending s4)" by (simp add: suffix_appendI)
        also note block_loop_suffix [OF l]
        also note a3
        finally have "suffix (pending s4) (pending s)" .
        with "1.IH"(2) [OF r0 [symmetric] w [symmetric] True r2 [symmetric] nnx st
                          r3 [symmetric] l [symmetric]] eq
        show ?thesis by (auto intro: suffix_order.trans)
      next
        case False
        have eq: "skip_whitespace_and_comments s = unread_char c (unread_char nx s2)"
          using r0 w True r2 nnx False by (subst skip_whitespace_and_comments.simps) simp
        show ?thesis using eq a1 a2 by (simp add: unread_char_pending)
      qed
    qed
  qed
qed

lemma next_token_Cons:
  assumes p: "pending (skip_whitespace_and_comments s) = x # xs"
  shows "\<exists>t. pending t = x # xs \<and> next_token s = dispatch x t"
proof -
  let ?s1 = "skip_whitespace_and_comments s"
  from read_char_Cons [OF p] obtain s2 where r2: "read_char ?s1 = (Some x, s2)" by blast
  let ?s3 = "unread_char (Some x) s2"
  have p3: "pending ?s3 = x # xs"
    using read_char_pending [OF r2] p by (simp add: unread_char_pending)
  from read_char_Cons [OF p3] obtain s4 where r4: "read_char ?s3 = (Some x, s4)" by blast
  let ?s5 = "unread_char (Some x) s4"
  have p5: "pending ?s5 = x # xs"
    using read_char_pending [OF r4] p3 by (simp add: unread_char_pending)
  have "next_token s = dispatch x ?s5"
    using r2 r4 by (simp add: next_token_def dispatch_def Let_def)
  with p5 show ?thesis by blast
qed

lemma next_token_EOF_iff:
  "type (fst (next_token s)) = TOK_EOF \<longleftrightarrow> pending (skip_whitespace_and_comments s) = []"
proof (cases "pending (skip_whitespace_and_comments s)")
  case Nil
  then show ?thesis by (simp add: next_token_Nil)
next
  case (Cons x xs)
  from next_token_Cons [OF this] show ?thesis using Cons by (auto simp: dispatch_not_EOF)
qed

lemma next_token_suffix: "suffix (pending (snd (next_token s))) (pending s)"
proof (cases "pending (skip_whitespace_and_comments s)")
  case Nil
  then show ?thesis using skip_suffix [of s] by (simp add: next_token_Nil)
next
  case (Cons x xs)
  from next_token_Cons [OF this] obtain t where
    t: "pending t = x # xs" "next_token s = dispatch x t" by blast
  have "suffix (pending (snd (dispatch x t))) xs" by (rule dispatch_suffix [OF t(1)])
  also have "suffix xs (x # xs)" by (simp add: suffix_ConsI)
  also have "suffix (x # xs) (pending s)" using skip_suffix [of s] Cons by simp
  finally show ?thesis using t(2) by simp
qed

lemma next_token_progress:
  assumes "type (fst (next_token s)) \<noteq> TOK_EOF"
  shows "length (pending (snd (next_token s))) < length (pending s)"
proof (cases "pending (skip_whitespace_and_comments s)")
  case Nil
  with assms show ?thesis by (simp add: next_token_EOF_iff)
next
  case (Cons x xs)
  from next_token_Cons [OF this] obtain t where
    t: "pending t = x # xs" "next_token s = dispatch x t" by blast
  have "length (pending (snd (dispatch x t))) \<le> length xs"
    by (rule suffix_length_le [OF dispatch_suffix [OF t(1)]])
  moreover have "length (x # xs) \<le> length (pending s)"
    using suffix_length_le [OF skip_suffix [of s]] Cons by simp
  ultimately show ?thesis using t(2) by simp
qed

lemma next_token_at_end:
  assumes "pending s = []"
  shows "next_token s = (make_token TOK_EOF ''EOF'' (g_line s) (g_col s), s)"
  using assms skip_Nil [OF assms] by (simp add: next_token_Nil)

lemma next_token_EOF_state:
  assumes "type (fst (next_token s)) = TOK_EOF"
  shows "pending (snd (next_token s)) = []"
  using assms by (simp add: next_token_EOF_iff next_token_Nil)

lemma calls_at_end: "pending s = [] \<Longrightarrow> calls n s = s"
  by (induction n) (simp_all add: next_token_at_end)

lemma calls_Suc: "calls (Suc n) s = snd (next_token (calls n s))"
  by (induction n arbitrary: s) simp_all

lemma calls_add: "calls (m + n) s = calls n (calls m s)"
  by (induction m arbitrary: s) simp_all

lemma EOF_within:
  "\<exists>n. n \<le> length (pending s) \<and> type (nth_token n s) = TOK_EOF"
proof (induction "length (pending s)" arbitrary: s rule: less_induct)
  case less
  show ?case
  proof (cases "type (fst (next_token s)) = TOK_EOF")
    case True
    then have "type (nth_token 0 s) = TOK_EOF" by (simp add: nth_token_def)
    then show ?thesis by blast
  next
    case False
    let ?s' = "snd (next_token s)"
    have lt: "length (pending ?s') < length (pending s)" by (rule next_token_progress [OF False])
    from less [OF lt] obtain n where
      n: "n \<le> length (pending ?s')" "type (nth_token n ?s') = TOK_EOF" by blast
    have "type (nth_token (Suc n) s) = TOK_EOF" using n(2) by (simp add: nth_token_def)
    moreover have "Suc n \<le> length (pending s)" using n(1) lt by simp
    ultimately show ?thesis by blast
  qed
qed

text \<open>
  C9. End of input is absorbing: once \<open>next_token\<close> has returned an EndOfInput token, every
  later call returns an EndOfInput token again (the same one), and the state does not change
  any more.
\<close>

theorem eof_is_absorbing:
  assumes "type (fst (next_token s)) = TOK_EOF"
  shows "type (nth_token n (snd (next_token s))) = TOK_EOF
         \<and> nth_token n (snd (next_token s)) = fst (next_token s)
         \<and> calls n (snd (next_token s)) = snd (next_token s)"
proof -
  let ?s' = "snd (next_token s)"
  have e: "pending (skip_whitespace_and_comments s) = []"
    using assms by (simp add: next_token_EOF_iff)
  then have s': "?s' = skip_whitespace_and_comments s"
    and tk: "fst (next_token s) = make_token TOK_EOF ''EOF'' (g_line ?s') (g_col ?s')"
    by (simp_all add: next_token_Nil)
  have p: "pending ?s' = []" using e s' by simp
  have c: "calls n ?s' = ?s'" by (rule calls_at_end [OF p])
  have "nth_token n ?s' = fst (next_token ?s')" using c by (simp add: nth_token_def)
  also have "\<dots> = fst (next_token s)" using next_token_at_end [OF p] tk by simp
  finally show ?thesis using c assms by simp
qed

theorem eof_is_absorbing_witness:
  "type (fst (next_token (init_state ''x''))) \<noteq> TOK_EOF
   \<and> type (fst (next_token (calls 1 (init_state ''x'')))) = TOK_EOF
   \<and> type (nth_token 5 (snd (next_token (calls 1 (init_state ''x''))))) = TOK_EOF"
proof -
  have a: "type (fst (next_token (init_state ''x''))) \<noteq> TOK_EOF" by code_simp
  have h: "type (fst (next_token (calls 1 (init_state ''x'')))) = TOK_EOF" by code_simp
  show ?thesis using a h eof_is_absorbing [OF h, of 5] by simp
qed

text \<open>
  C5. Every call of \<open>next_token\<close> returns (the model functions are total: each loop of the
  scanner has a termination proof), and on an input of \<open>n\<close> characters one of the first
  \<open>n + 1\<close> calls returns an EndOfInput token. So the token sequence of a finite input is
  finite and ends with EndOfInput.
\<close>

theorem eof_after_finitely_many_calls:
  "\<exists>n. n \<le> length inp \<and> type (nth_token n (init_state inp)) = TOK_EOF
       \<and> (\<forall>m. m < n \<longrightarrow> type (nth_token m (init_state inp)) \<noteq> TOK_EOF)"
proof -
  define P where "P n \<longleftrightarrow> type (nth_token n (init_state inp)) = TOK_EOF" for n
  from EOF_within [of "init_state inp"] obtain n where
    n: "n \<le> length inp" "P n" by (auto simp: P_def pending_def init_state_def)
  define k where "k = (LEAST n. P n)"
  have "P k" unfolding k_def using n(2) by (rule LeastI)
  moreover have "k \<le> n" unfolding k_def using n(2) by (rule Least_le)
  moreover have "\<forall>m. m < k \<longrightarrow> \<not> P m" unfolding k_def using not_less_Least by blast
  ultimately show ?thesis using n(1) unfolding P_def by (intro exI [of _ k]) auto
qed

theorem eof_after_finitely_many_calls_witness:
  "type (nth_token 2 (init_state ''a b'')) = TOK_EOF
   \<and> type (nth_token 0 (init_state ''a b'')) \<noteq> TOK_EOF
   \<and> type (nth_token 1 (init_state ''a b'')) \<noteq> TOK_EOF
   \<and> (\<exists>n. n \<le> length ''a b'' \<and> type (nth_token n (init_state ''a b'')) = TOK_EOF
       \<and> (\<forall>m. m < n \<longrightarrow> type (nth_token m (init_state ''a b'')) \<noteq> TOK_EOF))"
proof -
  have a: "type (nth_token 2 (init_state ''a b'')) = TOK_EOF" by code_simp
  have b: "type (nth_token 0 (init_state ''a b'')) \<noteq> TOK_EOF" by code_simp
  have c: "type (nth_token 1 (init_state ''a b'')) \<noteq> TOK_EOF" by code_simp
  show ?thesis using a b c eof_after_finitely_many_calls [of "''a b''"] by blast
qed

section \<open>A slash that opens no comment\<close>

lemma skip_slash:
  assumes p: "pending s = CHR ''/'' # y # rest" and y: "y \<noteq> CHR ''/''" "y \<noteq> CHR ''*''"
  shows "pending (skip_whitespace_and_comments s) = CHR ''/'' # y # rest"
proof -
  from read_char_Cons [OF p] obtain s0 where
    r0: "read_char s = (Some CHR ''/'', s0)" and p0: "pending s0 = y # rest"
    by (auto simp: view_def)
  from read_char_Cons [OF p0] obtain s2 where
    r2: "read_char s0 = (Some y, s2)" and p2: "pending s2 = rest"
    by (auto simp: view_def)
  have w: "ws_loop (Some CHR ''/'') s0 = (Some CHR ''/'', s0)"
    by (rule ws_loop_stop) (simp add: isspace_def)
  have "skip_whitespace_and_comments s =
          unread_char (Some CHR ''/'') (unread_char (Some y) s2)"
    using r0 w r2 y by (subst skip_whitespace_and_comments.simps) simp
  then show ?thesis using p2 by (simp add: unread_char_pending)
qed

lemma slash_pair: "cstr [CHR ''/'', y] \<in> set two_ops \<longleftrightarrow> y = CHR ''=''"
  by (auto simp: cstr_def two_ops_def)

lemma read_operator_slash:
  assumes p: "pending t = CHR ''/'' # y # rest"
  shows "type (fst (read_operator_or_separator t)) = TOK_OPERATOR"
    and "lexeme (fst (read_operator_or_separator t)) = (if y = CHR ''='' then ''/='' else ''/'')"
    and "pending (snd (read_operator_or_separator t)) = (if y = CHR ''='' then rest else y # rest)"
proof -
  from read_char_Cons [OF p] obtain s1 where
    r1: "read_char t = (Some CHR ''/'', s1)" and p1: "pending s1 = y # rest"
    by (auto simp: view_def)
  from read_char_Cons [OF p1] obtain s2 where
    r2: "read_char s1 = (Some y, s2)" and p2: "pending s2 = rest"
    by (auto simp: view_def)
  have sep: "\<not> is_separator_char (Some CHR ''/'')" by (simp add: is_separator_char_def)
  have op: "strchr ''+-*/%<>=!&|^~?:.'' (Some CHR ''/'')"
    by (simp add: strchr_def to_char_def cstr_def)
  have eq: "read_operator_or_separator t =
     (if y = CHR ''=''
      then (make_token TOK_OPERATOR [CHR ''/'', y] (g_line t) (g_col t + 1), s2)
      else (make_token TOK_OPERATOR [CHR ''/''] (g_line t) (g_col t + 1),
            unread_char (Some y) s2))"
    using r1 r2 sep op slash_pair [of y]
    by (simp add: read_operator_or_separator_def Let_def to_char_def)
  show "type (fst (read_operator_or_separator t)) = TOK_OPERATOR" using eq by simp
  show "lexeme (fst (read_operator_or_separator t)) = (if y = CHR ''='' then ''/='' else ''/'')"
    using eq by (simp add: cstr_def MAX_LEXEME_LEN_def)
  show "pending (snd (read_operator_or_separator t)) = (if y = CHR ''='' then rest else y # rest)"
    using eq p2 by (simp add: unread_char_pending)
qed

lemma all_read_eventually: "pending (calls (Suc (length (pending s))) s) = []"
proof -
  from EOF_within [of s] obtain n where
    n: "n \<le> length (pending s)" "type (nth_token n s) = TOK_EOF" by blast
  have "pending (snd (next_token (calls n s))) = []"
    using n(2) by (intro next_token_EOF_state) (simp add: nth_token_def)
  then have e: "pending (calls (Suc n) s) = []"
    by (simp only: calls_Suc)
  have "Suc (length (pending s)) = Suc n + (length (pending s) - n)" using n(1) by simp
  then have "calls (Suc (length (pending s))) s =
               calls (length (pending s) - n) (calls (Suc n) s)"
    by (simp only: calls_add)
  also have "\<dots> = calls (Suc n) s" by (rule calls_at_end [OF e])
  finally show ?thesis using e by simp
qed

section \<open>Identifier runs\<close>

lemma read_char_cases:
  "\<exists>s1. read_char s = (case pending s of [] \<Rightarrow> None | y # ys \<Rightarrow> Some y, s1)
        \<and> pending s1 = tl (pending s)"
  using fst_read_char [of s] view_read_char [of s]
  by (cases "read_char s") (auto simp: view_def split: list.splits)

lemma put_take:
  "length buf \<le> n \<Longrightarrow> put n buf x = take n (buf @ [x])"
  by (simp add: put_def)

lemma take_put_append:
  "length buf \<le> n \<Longrightarrow> take n (put n buf x @ ys) = take n (buf @ x # ys)"
  by (auto simp: put_def take_Cons')

lemma ident_loop_run:
  assumes "pending s = run @ rest" and "\<forall>x\<in>set run. idchar (Some x)"
    and "rest = [] \<or> \<not> idchar (Some (hd rest))"
    and "idchar (Some x)" and "length buf \<le> MAX_LEXEME_LEN - 1"
  shows "\<exists>s'. ident_loop (Some x) buf s =
               (case rest of [] \<Rightarrow> None | y # ys \<Rightarrow> Some y,
                take (MAX_LEXEME_LEN - 1) (buf @ x # run), s')
             \<and> pending s' = tl rest"
  using assms
proof (induction run arbitrary: x buf s)
  case Nil
  from read_char_cases [of s] Nil.prems(1) obtain s1 where
    r: "read_char s = (case rest of [] \<Rightarrow> None | y # ys \<Rightarrow> Some y, s1)"
    and p1: "pending s1 = tl rest" by auto
  let ?c = "case rest of [] \<Rightarrow> None | y # ys \<Rightarrow> Some y"
  have stop: "\<not> idchar ?c"
    using Nil.prems(3) by (cases rest) (auto simp: isalnum_def isalpha_def isdigit_def)
  have "ident_loop (Some x) buf s = ident_loop ?c (put (MAX_LEXEME_LEN - 1) buf x) s1"
    using Nil.prems(4) r by (simp add: ident_loop_step to_char_def)
  also have "\<dots> = (?c, put (MAX_LEXEME_LEN - 1) buf x, s1)"
    using stop by (rule ident_loop_stop)
  finally show ?case using p1 Nil.prems(5) by (simp add: put_take)
next
  case (Cons r rs)
  from read_char_cases [of s] Cons.prems(1) obtain s1 where
    r: "read_char s = (Some r, s1)" and p1: "pending s1 = rs @ rest" by auto
  have len: "length (put (MAX_LEXEME_LEN - 1) buf x) \<le> MAX_LEXEME_LEN - 1"
    using Cons.prems(5) by (simp add: put_def)
  have "ident_loop (Some x) buf s = ident_loop (Some r) (put (MAX_LEXEME_LEN - 1) buf x) s1"
    using Cons.prems(4) r by (simp add: ident_loop_step to_char_def)
  moreover from Cons.IH [OF p1 _ Cons.prems(3) _ len, of r] Cons.prems(2)
  obtain s' where
    "ident_loop (Some r) (put (MAX_LEXEME_LEN - 1) buf x) s1 =
       (case rest of [] \<Rightarrow> None | y # ys \<Rightarrow> Some y,
        take (MAX_LEXEME_LEN - 1) (put (MAX_LEXEME_LEN - 1) buf x @ r # rs), s')"
    and p': "pending s' = tl rest" by auto
  ultimately have "ident_loop (Some x) buf s =
       (case rest of [] \<Rightarrow> None | y # ys \<Rightarrow> Some y,
        take (MAX_LEXEME_LEN - 1) (buf @ x # r # rs), s')"
    by (simp only: take_put_append [OF Cons.prems(5)])
  with p' show ?case by blast
qed

lemma keyword_short: "k \<in> set KEYWORDS \<Longrightarrow> length k \<le> 8"
  by (auto simp: KEYWORDS_def)

lemma take_keyword:
  "take (MAX_LEXEME_LEN - 1) w \<in> set KEYWORDS \<longleftrightarrow> w \<in> set KEYWORDS"
proof
  assume a: "take (MAX_LEXEME_LEN - 1) w \<in> set KEYWORDS"
  from keyword_short [OF a] have "length w \<le> 8" by (simp add: MAX_LEXEME_LEN_def)
  then have "take (MAX_LEXEME_LEN - 1) w = w" by (simp add: MAX_LEXEME_LEN_def)
  with a show "w \<in> set KEYWORDS" by simp
next
  assume a: "w \<in> set KEYWORDS"
  from keyword_short [OF a] have "take (MAX_LEXEME_LEN - 1) w = w"
    by (simp add: MAX_LEXEME_LEN_def)
  with a show "take (MAX_LEXEME_LEN - 1) w \<in> set KEYWORDS" by simp
qed

lemma idchar_not_NUL: "idchar (Some x) \<Longrightarrow> x \<noteq> NUL"
  by (auto simp: isalnum_def isalpha_def isdigit_def)

lemma cstr_id: "NUL \<notin> set w \<Longrightarrow> cstr w = w"
  by (auto simp: cstr_def takeWhile_eq_all_conv)

lemma read_identifier_run:
  assumes p: "pending s = run @ rest" and ne: "run \<noteq> []"
    and run: "\<forall>x\<in>set run. idchar (Some x)"
    and rest: "rest = [] \<or> \<not> idchar (Some (hd rest))"
  shows "fst (read_identifier_or_keyword s) =
           \<lparr>type = (if run \<in> set KEYWORDS then TOK_KEYWORD else TOK_IDENTIFIER),
            lexeme = (if run \<in> set KEYWORDS then run else take MAX_ID_LEN run),
            line = g_line s, col = g_col s + 1\<rparr>"
    and "pending (snd (read_identifier_or_keyword s)) = rest"
proof -
  from ne obtain x rs where xs: "run = x # rs" by (cases run) auto
  from read_char_Cons [of s x "rs @ rest"] p xs obtain s0 where
    r0: "read_char s = (Some x, s0)" and p0: "pending s0 = rs @ rest"
    by (auto simp: view_def)
  let ?c = "case rest of [] \<Rightarrow> None | y # ys \<Rightarrow> Some y"
  let ?buf = "take (MAX_LEXEME_LEN - 1) run"
  from ident_loop_run [OF p0 _ rest, of x "[]"] run xs obtain s1 where
    l: "ident_loop (Some x) [] s0 = (?c, ?buf, s1)" and p1: "pending s1 = tl rest"
    by auto
  have nul: "NUL \<notin> set run" using run idchar_not_NUL by blast
  then have "NUL \<notin> set ?buf" by (auto dest: in_set_takeD)
  then have cb: "cstr ?buf = ?buf" by (rule cstr_id)
  have kw: "is_keyword ?buf \<longleftrightarrow> run \<in> set KEYWORDS"
    by (simp only: is_keyword_def cb take_keyword)
  have c64: "cstr (take MAX_ID_LEN ?buf) = take MAX_ID_LEN run"
    using nul by (subst cstr_id) (auto dest: in_set_takeD simp: MAX_ID_LEN_def MAX_LEXEME_LEN_def)
  have eq: "read_identifier_or_keyword s =
     (if \<not> run \<in> set KEYWORDS \<and> MAX_ID_LEN < length ?buf
      then make_token TOK_IDENTIFIER (take MAX_ID_LEN ?buf) (g_line s) (g_col s + 1)
      else if run \<in> set KEYWORDS then make_token TOK_KEYWORD ?buf (g_line s) (g_col s + 1)
      else make_token TOK_IDENTIFIER ?buf (g_line s) (g_col s + 1), unread_char ?c s1)"
    using r0 l kw cb by (simp add: read_identifier_or_keyword_def Let_def)
  show "pending (snd (read_identifier_or_keyword s)) = rest"
    using eq p1 by (cases rest) (simp_all add: unread_char_pending)
  have short: "run \<in> set KEYWORDS \<Longrightarrow> ?buf = run"
    using keyword_short [of run] by (simp add: MAX_LEXEME_LEN_def)
  show "fst (read_identifier_or_keyword s) =
           \<lparr>type = (if run \<in> set KEYWORDS then TOK_KEYWORD else TOK_IDENTIFIER),
            lexeme = (if run \<in> set KEYWORDS then run else take MAX_ID_LEN run),
            line = g_line s, col = g_col s + 1\<rparr>"
  proof (cases "run \<in> set KEYWORDS")
    case True
    with eq short cb show ?thesis by (simp add: make_token_def)
  next
    case False
    show ?thesis
    proof (cases "MAX_ID_LEN < length ?buf")
      case True
      with False eq c64 show ?thesis
        by (simp add: make_token_def MAX_ID_LEN_def MAX_LEXEME_LEN_def)
    next
      case f: False
      then have "length run \<le> MAX_ID_LEN" by (auto simp: MAX_ID_LEN_def MAX_LEXEME_LEN_def)
      then have "?buf = run" "take MAX_ID_LEN run = run"
        by (simp_all add: MAX_ID_LEN_def MAX_LEXEME_LEN_def)
      with False f eq cb show ?thesis by (simp add: make_token_def)
    qed
  qed
qed

text \<open>
  C8. A maximal run of letters, digits and underscores that starts with a letter or an
  underscore is consumed whole by \<open>next_token\<close>. When the run is a keyword the token is that
  keyword; otherwise it is an identifier whose text is the first 64 characters of the run:
  the whole run when it has at most 64 characters, and exactly 64 characters when it is
  longer. The call does not fail.
\<close>

theorem identifier_truncated_at_64:
  assumes "pending s = run @ rest" and "run \<noteq> []"
    and "isalpha (Some (hd run)) \<or> hd run = CHR ''_''"
    and "\<forall>x\<in>set run. isalnum (Some x) \<or> x = CHR ''_''"
    and "rest = [] \<or> \<not> (isalnum (Some (hd rest)) \<or> hd rest = CHR ''_'')"
  shows "fst (next_token s) =
           \<lparr>type = (if run \<in> set KEYWORDS then TOK_KEYWORD else TOK_IDENTIFIER),
            lexeme = (if run \<in> set KEYWORDS then run else take MAX_ID_LEN run),
            line = g_line s, col = g_col s + 1\<rparr>
         \<and> pending (snd (next_token s)) = rest
         \<and> (run \<notin> set KEYWORDS \<and> MAX_ID_LEN < length run \<longrightarrow>
              type (fst (next_token s)) = TOK_IDENTIFIER
              \<and> lexeme (fst (next_token s)) = take 64 run
              \<and> length (lexeme (fst (next_token s))) = 64)
         \<and> (length run \<le> MAX_ID_LEN \<or> run \<in> set KEYWORDS \<longrightarrow>
              lexeme (fst (next_token s)) = run)"
proof -
  from assms(2) obtain x rs where xs: "run = x # rs" by (cases run) auto
  have hx: "isalpha (Some x) \<or> x = CHR ''_''" using assms(3) xs by simp
  have sp: "\<not> isspace (Some x)" "x \<noteq> CHR ''/''"
    using hx by (auto simp: isspace_def isalpha_def)
  have px: "pending s = x # rs @ rest" using assms(1) xs by simp
  have v: "view (skip_whitespace_and_comments s) = view s" by (rule skip_plain [OF px sp])
  then have "pending (skip_whitespace_and_comments s) = x # rs @ rest"
    using px by (simp add: view_def)
  from next_token_dispatch [OF this] sp(1) obtain t where
    t: "view t = view (skip_whitespace_and_comments s)" "next_token s = dispatch x t"
    by (auto simp: isspace_def)
  have d: "dispatch x t = read_identifier_or_keyword t" using hx by (simp add: dispatch_def)
  have pt: "pending t = run @ rest" and gt: "g_line t = g_line s" "g_col t = g_col s"
    using t(1) v assms(1) by (simp_all add: view_def)
  have run: "\<forall>x\<in>set run. idchar (Some x)" using assms(4) by simp
  have rest: "rest = [] \<or> \<not> idchar (Some (hd rest))" using assms(5) by simp
  note r = read_identifier_run [OF pt assms(2) run rest]
  have tok: "fst (next_token s) =
           \<lparr>type = (if run \<in> set KEYWORDS then TOK_KEYWORD else TOK_IDENTIFIER),
            lexeme = (if run \<in> set KEYWORDS then run else take MAX_ID_LEN run),
            line = g_line s, col = g_col s + 1\<rparr>"
    using r(1) t(2) d gt by simp
  have pend: "pending (snd (next_token s)) = rest"
    using r(2) t(2) d by simp
  show ?thesis
    using tok pend by (auto simp: MAX_ID_LEN_def)
qed

theorem identifier_truncated_at_64_witness:
  "pending (init_state (replicate 100 CHR ''a'' @ '' x'')) = replicate 100 CHR ''a'' @ '' x''
   \<and> fst (next_token (init_state (replicate 100 CHR ''a'' @ '' x''))) =
       \<lparr>type = TOK_IDENTIFIER, lexeme = replicate 64 CHR ''a'', line = 1, col = 1\<rparr>
   \<and> length (lexeme (fst (next_token (init_state (replicate 100 CHR ''a'' @ '' x''))))) = 64
   \<and> pending (snd (next_token (init_state (replicate 100 CHR ''a'' @ '' x'')))) = '' x''"
proof -
  let ?run = "replicate 100 CHR ''a''"
  let ?s = "init_state (?run @ '' x'')"
  have h1: "pending ?s = ?run @ '' x''" by (simp add: pending_def init_state_def)
  have h2: "?run \<noteq> []" by simp
  have h3: "isalpha (Some (hd ?run)) \<or> hd ?run = CHR ''_''" by (simp add: isalpha_def)
  have h4: "\<forall>x\<in>set ?run. isalnum (Some x) \<or> x = CHR ''_''"
    by (simp add: isalnum_def isalpha_def)
  have h5: "'' x'' = [] \<or> \<not> (isalnum (Some (hd '' x'')) \<or> hd '' x'' = CHR ''_'')"
    by (simp add: isalnum_def isalpha_def isdigit_def)
  have nk: "?run \<notin> set KEYWORDS"
  proof
    assume "?run \<in> set KEYWORDS"
    from keyword_short [OF this] show False by simp
  qed
  show ?thesis
    using h1 nk identifier_truncated_at_64 [OF h1 h2 h3 h4 h5]
    by (simp add: MAX_ID_LEN_def init_state_def)
qed

section \<open>String literals against the wording of the specification\<close>

text \<open>
  The string literal as the specification words it, on the characters after the opening
  quote: characters are taken until an unescaped double quote; a backslash takes the
  character after it along; a raw newline, the end of the input, or the end of the input
  right after a backslash is a failure (\<open>None\<close>). On success the result is the contents
  (escape pairs as they stand, the closing quote left out) and what follows the closing
  quote. This definition is not taken from the code; \<open>string_loop\<close> is compared with it.
\<close>

fun spec_string_body :: "string \<Rightarrow> (string \<times> string) option" where
  "spec_string_body [] = None"
| "spec_string_body (x # xs) =
     (if x = DQ then Some ([], xs)
      else if x = NL then None
      else if x = BS then
        (case xs of
           [] \<Rightarrow> None
         | y # ys \<Rightarrow>
             (case spec_string_body ys of
                None \<Rightarrow> None
              | Some (body, rest) \<Rightarrow> Some (x # y # body, rest)))
      else
        (case spec_string_body xs of
           None \<Rightarrow> None
         | Some (body, rest) \<Rightarrow> Some (x # body, rest)))"

lemma put_fits: "length buf < n \<Longrightarrow> put n buf x = buf @ [x]"
  by (simp add: put_def)

lemma string_loop_spec:
  assumes "ostr c @ pending s = cs" and "c = None \<longrightarrow> pending s = []"
  shows "case spec_string_body cs of
           None \<Rightarrow> (\<exists>s'. string_loop c buf s = (None, s'))
                   \<or> (\<exists>buf' s'. string_loop c buf s = (Some (None, buf'), s'))
         | Some (body, rest) \<Rightarrow>
             (\<exists>buf' s'. string_loop c buf s = (Some (Some DQ, buf'), s') \<and> pending s' = rest
                \<and> (length buf + length body \<le> MAX_LEXEME_LEN - 2 \<longrightarrow> buf' = buf @ body))"
  using assms
proof (induction "length cs" arbitrary: cs c buf s rule: less_induct)
  case less
  show ?case
  proof (cases c)
    case None
    with less.prems have "cs = []" by simp
    with None show ?thesis by (simp add: string_loop_None)
  next
    case (Some x)
    with less.prems(1) have cs: "cs = x # pending s" by simp
    from read_char_cases [of s] obtain s1 where
      r1: "read_char s = (case pending s of [] \<Rightarrow> None | y # ys \<Rightarrow> Some y, s1)"
      and p1: "pending s1 = tl (pending s)" by blast
    let ?c1 = "case pending s of [] \<Rightarrow> None | y # ys \<Rightarrow> Some y"
    have st1: "ostr ?c1 @ pending s1 = pending s" "?c1 = None \<longrightarrow> pending s1 = []"
      using p1 by (auto split: list.splits)
    consider "x = DQ" | "x = NL" | "x = BS" "pending s = []"
      | y ys where "x = BS" "pending s = y # ys"
      | "x \<noteq> DQ" "x \<noteq> NL" "x \<noteq> BS"
      by (cases "pending s") auto
    then show ?thesis
    proof cases
      case 1
      with Some cs show ?thesis by (simp add: string_loop_DQ)
    next
      case 2
      with Some cs show ?thesis by (simp add: string_loop_NL)
    next
      case 3
      with Some cs r1 show ?thesis by (simp add: string_loop_BS_None)
    next
      case 4
      from read_char_cases [of s1] obtain s2 where
        r2: "read_char s1 = (case pending s1 of [] \<Rightarrow> None | y # ys \<Rightarrow> Some y, s2)"
        and p2: "pending s2 = tl (pending s1)" by blast
      let ?c2 = "case pending s1 of [] \<Rightarrow> None | y # ys \<Rightarrow> Some y"
      let ?buf2 = "put (MAX_LEXEME_LEN - 2) (put (MAX_LEXEME_LEN - 2) buf BS) y"
      have st2: "ostr ?c2 @ pending s2 = ys" "?c2 = None \<longrightarrow> pending s2 = []"
        using p1 p2 4 by (auto split: list.splits)
      have step: "string_loop c buf s = string_loop ?c2 ?buf2 s2"
        using Some 4 r1 r2 by (simp add: string_loop_BS_Some)
      have "length ys < length cs" using cs 4 by simp
      note IH = less.hyps [OF this st2, of ?buf2]
      show ?thesis
      proof (cases "spec_string_body ys")
        case None
        with IH step cs 4 show ?thesis by simp
      next
        case (Some br)
        obtain body rest where br: "br = (body, rest)" by (cases br)
        from IH Some br obtain buf' s' where
          l: "string_loop ?c2 ?buf2 s2 = (Some (Some DQ, buf'), s')" "pending s' = rest"
          and b: "length ?buf2 + length body \<le> MAX_LEXEME_LEN - 2 \<longrightarrow> buf' = ?buf2 @ body"
          by auto
        have "length buf + length (x # y # body) \<le> MAX_LEXEME_LEN - 2 \<longrightarrow>
                buf' = buf @ x # y # body"
          using b 4 by (auto simp: put_def)
        with l step cs 4 Some br show ?thesis by simp
      qed
    next
      case 5
      let ?buf1 = "put (MAX_LEXEME_LEN - 1) buf x"
      have step: "string_loop c buf s = string_loop ?c1 ?buf1 s1"
        using Some 5 r1 by (simp add: string_loop_plain)
      have "length (pending s) < length cs" using cs by simp
      note IH = less.hyps [OF this st1, of ?buf1]
      show ?thesis
      proof (cases "spec_string_body (pending s)")
        case None
        with IH step cs 5 show ?thesis by simp
      next
        case (Some br)
        obtain body rest where br: "br = (body, rest)" by (cases br)
        from IH Some br obtain buf' s' where
          l: "string_loop ?c1 ?buf1 s1 = (Some (Some DQ, buf'), s')" "pending s' = rest"
          and b: "length ?buf1 + length body \<le> MAX_LEXEME_LEN - 2 \<longrightarrow> buf' = ?buf1 @ body"
          by auto
        have "length buf + length (x # body) \<le> MAX_LEXEME_LEN - 2 \<longrightarrow> buf' = buf @ x # body"
          using b by (auto simp: put_def)
        with l step cs 5 Some br show ?thesis by simp
      qed
    qed
  qed
qed

lemma read_string_spec:
  assumes p: "pending t = DQ # cs"
  shows "case spec_string_body cs of
           None \<Rightarrow> fst (read_string t) =
                     make_token TOK_ERROR ''Unterminated string literal'' (g_line t) (g_col t + 1)
         | Some (body, rest) \<Rightarrow>
             (\<exists>buf. fst (read_string t) = make_token TOK_STRING buf (g_line t) (g_col t + 1)
                \<and> (length body \<le> MAX_LEXEME_LEN - 2 \<longrightarrow> buf = body))
             \<and> pending (snd (read_string t)) = rest"
proof -
  from read_char_Cons [OF p] obtain s0 where
    r0: "read_char t = (Some DQ, s0)" and p0: "pending s0 = cs" by (auto simp: view_def)
  from read_char_cases [of s0] p0 obtain s1 where
    r1: "read_char s0 = (case cs of [] \<Rightarrow> None | y # ys \<Rightarrow> Some y, s1)"
    and p1: "pending s1 = tl cs" by auto
  let ?c = "case cs of [] \<Rightarrow> None | y # ys \<Rightarrow> Some y"
  have st: "ostr ?c @ pending s1 = cs" "?c = None \<longrightarrow> pending s1 = []"
    using p1 by (auto split: list.splits)
  note L = string_loop_spec [OF st, of "[]"]
  show ?thesis
  proof (cases "spec_string_body cs")
    case None
    with L r0 r1 show ?thesis by (auto simp: read_string_def Let_def)
  next
    case (Some br)
    obtain body rest where br: "br = (body, rest)" by (cases br)
    from L Some br obtain buf' s' where
      l: "string_loop ?c [] s1 = (Some (Some DQ, buf'), s')" "pending s' = rest"
      and b: "length body \<le> MAX_LEXEME_LEN - 2 \<longrightarrow> buf' = body"
      by auto
    have "read_string t = (make_token TOK_STRING buf' (g_line t) (g_col t + 1), s')"
      using r0 r1 l(1) by (simp add: read_string_def Let_def)
    with l(2) b Some br show ?thesis by auto
  qed
qed


text \<open>
  Well-formed contents, again in the words of the specification: a sequence of escape pairs
  (a backslash and any character) and of single characters other than backslash, double
  quote and newline.
\<close>

fun spec_contents :: "string \<Rightarrow> bool" where
  "spec_contents [] = True"
| "spec_contents (x # xs) =
     (if x = BS then (case xs of [] \<Rightarrow> False | y # ys \<Rightarrow> spec_contents ys)
      else x \<noteq> DQ \<and> x \<noteq> NL \<and> spec_contents xs)"








section \<open>The operator scanner on every first character\<close>

text \<open>
  What \<open>next_token\<close> does on a character \<open>x\<close> that it hands to
  \<open>read_operator_or_separator\<close> (a slash in front of a comment never gets there, and is
  left out here): a separator is a token of its own; otherwise \<open>x\<close> and the next
  character are an operator when the pair is in the table; otherwise the next character
  stays pending and \<open>x\<close> alone is an operator when it is one of the sixteen characters of
  the set, or when it is NUL, and an Unknown token in every other case. NUL is the one
  character on which this differs from claim C7.
\<close>

lemma two_ops_cstr: "cstr [x, y] \<in> set two_ops \<longleftrightarrow> [x, y] \<in> set two_ops"
  by (auto simp: cstr_def two_ops_def)

lemma two_ops_EOF: "cstr [x, to_char None] \<notin> set two_ops"
  by (auto simp: cstr_def two_ops_def to_char_def)

lemma two_ops_length: "w \<in> set two_ops \<Longrightarrow> length w = 2"
  by (auto simp: two_ops_def)

lemma read_operator_cases:
  assumes p: "pending t = x # rest"
  shows "read_operator_or_separator t =
           (if is_separator_char (Some x)
            then make_token TOK_SEPARATOR [x] (g_line t) (g_col t + 1)
            else if x # take 1 rest \<in> set two_ops
            then make_token TOK_OPERATOR (x # take 1 rest) (g_line t) (g_col t + 1)
            else if x \<in> set ''+-*/%<>=!&|^~?:.'' \<or> x = NUL
            then make_token TOK_OPERATOR [x] (g_line t) (g_col t + 1)
            else make_token TOK_UNKNOWN [x] (g_line t) (g_col t + 1),
            snd (read_operator_or_separator t))"
    and "pending (snd (read_operator_or_separator t)) =
           (if \<not> is_separator_char (Some x) \<and> x # take 1 rest \<in> set two_ops
            then tl rest else rest)"
proof -
  from read_char_Cons [OF p] obtain s1 where
    r1: "read_char t = (Some x, s1)" and p1: "pending s1 = rest" by (auto simp: view_def)
  from read_char_cases [of s1] p1 obtain s2 where
    r2: "read_char s1 = (case rest of [] \<Rightarrow> None | y # ys \<Rightarrow> Some y, s2)"
    and p2: "pending s2 = tl rest" by auto
  let ?c2 = "case rest of [] \<Rightarrow> None | y # ys \<Rightarrow> Some y"
  have pair: "cstr [x, to_char ?c2] \<in> set two_ops \<longleftrightarrow> x # take 1 rest \<in> set two_ops"
  proof (cases rest)
    case Nil
    then show ?thesis using two_ops_EOF [of x] two_ops_length [of "[x]"] by auto
  next
    case (Cons y ys)
    then show ?thesis by (simp add: two_ops_cstr to_char_def)
  qed
  have lx: "[x, to_char ?c2] = x # take 1 rest" if "x # take 1 rest \<in> set two_ops"
    using that two_ops_length [OF that] by (cases rest) (simp_all add: to_char_def)
  have single: "strchr ''+-*/%<>=!&|^~?:.'' (Some x) \<longleftrightarrow>
                  x \<in> set ''+-*/%<>=!&|^~?:.'' \<or> x = NUL"
    by (simp add: strchr_def to_char_def cstr_def)
  have ur: "pending (unread_char ?c2 s2) = rest"
    using p2 by (cases rest) (simp_all add: unread_char_pending)
  show "read_operator_or_separator t =
           (if is_separator_char (Some x)
            then make_token TOK_SEPARATOR [x] (g_line t) (g_col t + 1)
            else if x # take 1 rest \<in> set two_ops
            then make_token TOK_OPERATOR (x # take 1 rest) (g_line t) (g_col t + 1)
            else if x \<in> set ''+-*/%<>=!&|^~?:.'' \<or> x = NUL
            then make_token TOK_OPERATOR [x] (g_line t) (g_col t + 1)
            else make_token TOK_UNKNOWN [x] (g_line t) (g_col t + 1),
            snd (read_operator_or_separator t))"
    using r1 r2 pair lx single
    by (simp add: read_operator_or_separator_def Let_def to_char_def)
  show "pending (snd (read_operator_or_separator t)) =
           (if \<not> is_separator_char (Some x) \<and> x # take 1 rest \<in> set two_ops
            then tl rest else rest)"
    using r1 r2 pair p1 p2 ur
    by (simp add: read_operator_or_separator_def Let_def to_char_def)
qed

lemma next_token_operator:
  assumes p: "pending s = x # rest"
    and x: "\<not> isspace (Some x)" "x \<noteq> CHR ''/''" "\<not> isalpha (Some x)" "x \<noteq> CHR ''_''"
      "\<not> isdigit (Some x)" "x \<noteq> DQ" "x \<noteq> SQ"
  shows "fst (next_token s) =
           (if is_separator_char (Some x)
            then make_token TOK_SEPARATOR [x] (g_line s) (g_col s + 1)
            else if x # take 1 rest \<in> set two_ops
            then make_token TOK_OPERATOR (x # take 1 rest) (g_line s) (g_col s + 1)
            else if x \<in> set ''+-*/%<>=!&|^~?:.'' \<or> x = NUL
            then make_token TOK_OPERATOR [x] (g_line s) (g_col s + 1)
            else make_token TOK_UNKNOWN [x] (g_line s) (g_col s + 1))"
    and "pending (snd (next_token s)) =
           (if \<not> is_separator_char (Some x) \<and> x # take 1 rest \<in> set two_ops
            then tl rest else rest)"
proof -
  have v: "view (skip_whitespace_and_comments s) = view s" by (rule skip_plain [OF p x(1,2)])
  then have "pending (skip_whitespace_and_comments s) = x # rest" using p by (simp add: view_def)
  from next_token_dispatch [OF this] x(1) obtain t where
    t: "view t = view (skip_whitespace_and_comments s)" "next_token s = dispatch x t"
    by (auto simp: isspace_def)
  have d: "dispatch x t = read_operator_or_separator t" using x by (simp add: dispatch_def)
  have pt: "pending t = x # rest" and gt: "g_line t = g_line s" "g_col t = g_col s"
    using t(1) v p by (simp_all add: view_def)
  note R = read_operator_cases [OF pt]
  show "fst (next_token s) =
           (if is_separator_char (Some x)
            then make_token TOK_SEPARATOR [x] (g_line s) (g_col s + 1)
            else if x # take 1 rest \<in> set two_ops
            then make_token TOK_OPERATOR (x # take 1 rest) (g_line s) (g_col s + 1)
            else if x \<in> set ''+-*/%<>=!&|^~?:.'' \<or> x = NUL
            then make_token TOK_OPERATOR [x] (g_line s) (g_col s + 1)
            else make_token TOK_UNKNOWN [x] (g_line s) (g_col s + 1))"
    unfolding t(2) d gt [symmetric] by (subst R(1)) (simp only: fst_conv)
  show "pending (snd (next_token s)) =
           (if \<not> is_separator_char (Some x) \<and> x # take 1 rest \<in> set two_ops
            then tl rest else rest)"
    using R(2) t(2) d by simp
qed

lemma greedy_operator_examples:
  "map (\<lambda>k. nth_token k (init_state ''<=x'')) [0, 1] =
     [\<lparr>type = TOK_OPERATOR, lexeme = ''<='', line = 1, col = 1\<rparr>,
      \<lparr>type = TOK_IDENTIFIER, lexeme = ''x'', line = 1, col = 3\<rparr>]"
  "map (\<lambda>k. nth_token k (init_state ''<x'')) [0, 1] =
     [\<lparr>type = TOK_OPERATOR, lexeme = ''<'', line = 1, col = 1\<rparr>,
      \<lparr>type = TOK_IDENTIFIER, lexeme = ''x'', line = 1, col = 2\<rparr>]"
  "map (\<lambda>k. nth_token k (init_state ''@x'')) [0, 1] =
     [\<lparr>type = TOK_UNKNOWN, lexeme = ''@'', line = 1, col = 1\<rparr>,
      \<lparr>type = TOK_IDENTIFIER, lexeme = ''x'', line = 1, col = 2\<rparr>]"
  by code_simp+

section \<open>Character literals\<close>

text \<open>
  What is left of the input after a character literal, well formed or not, given the
  characters after the opening quote (in the words of section 4.5 of the specification: one
  character or a backslash and one character, then the closing quote; a newline or the end
  of the input in the place of the character ends the attempt there).
\<close>

definition spec_char_rest :: "string \<Rightarrow> string" where
  "spec_char_rest cs =
     (case cs of
        [] \<Rightarrow> []
      | c # r \<Rightarrow>
          if c = NL then r
          else if c = BS then
            (case r of [] \<Rightarrow> [] | e # r' \<Rightarrow> if e = NL then r' else drop 1 r')
          else drop 1 r)"

lemma read_char_literal_cases:
  assumes p: "pending t = SQ # cs"
  shows "fst (read_char_literal t) =
     (case cs of
        [] \<Rightarrow> make_token TOK_ERROR ''Unterminated char literal'' (g_line t) (g_col t + 1)
      | c # r \<Rightarrow>
          if c = NL
          then make_token TOK_ERROR ''Unterminated char literal'' (g_line t) (g_col t + 1)
          else if c = BS then
            (case r of
               [] \<Rightarrow> make_token TOK_ERROR ''Unterminated char literal'' (g_line t) (g_col t + 1)
             | e # r' \<Rightarrow>
                 if e = NL
                 then make_token TOK_ERROR ''Unterminated char literal'' (g_line t) (g_col t + 1)
                 else if take 1 r' = [SQ]
                 then make_token TOK_CHAR [BS, e] (g_line t) (g_col t + 1)
                 else make_token TOK_ERROR ''Invalid/unterminated char literal''
                        (g_line t) (g_col t + 1))
          else if take 1 r = [SQ]
          then make_token TOK_CHAR [c] (g_line t) (g_col t + 1)
          else make_token TOK_ERROR ''Invalid/unterminated char literal''
                 (g_line t) (g_col t + 1))"
    and "pending (snd (read_char_literal t)) = spec_char_rest cs"
proof -
  from read_char_Cons [OF p] obtain s0 where
    r0: "read_char t = (Some SQ, s0)" and p0: "pending s0 = cs" by (auto simp: view_def)
  from read_char_cases [of s0] p0 obtain s1 where
    r1: "read_char s0 = (case cs of [] \<Rightarrow> None | y # ys \<Rightarrow> Some y, s1)"
    and p1: "pending s1 = tl cs" by auto
  from read_char_cases [of s1] p1 obtain s2 where
    r2: "read_char s1 = (case tl cs of [] \<Rightarrow> None | y # ys \<Rightarrow> Some y, s2)"
    and p2: "pending s2 = tl (tl cs)" by auto
  from read_char_cases [of s2] p2 obtain s3 where
    r3: "read_char s2 = (case tl (tl cs) of [] \<Rightarrow> None | y # ys \<Rightarrow> Some y, s3)"
    and p3: "pending s3 = tl (tl (tl cs))" by auto
  note defs = read_char_literal_def Let_def put_def MAX_LEXEME_LEN_def to_char_def
  show "fst (read_char_literal t) =
     (case cs of
        [] \<Rightarrow> make_token TOK_ERROR ''Unterminated char literal'' (g_line t) (g_col t + 1)
      | c # r \<Rightarrow>
          if c = NL
          then make_token TOK_ERROR ''Unterminated char literal'' (g_line t) (g_col t + 1)
          else if c = BS then
            (case r of
               [] \<Rightarrow> make_token TOK_ERROR ''Unterminated char literal'' (g_line t) (g_col t + 1)
             | e # r' \<Rightarrow>
                 if e = NL
                 then make_token TOK_ERROR ''Unterminated char literal'' (g_line t) (g_col t + 1)
                 else if take 1 r' = [SQ]
                 then make_token TOK_CHAR [BS, e] (g_line t) (g_col t + 1)
                 else make_token TOK_ERROR ''Invalid/unterminated char literal''
                        (g_line t) (g_col t + 1))
          else if take 1 r = [SQ]
          then make_token TOK_CHAR [c] (g_line t) (g_col t + 1)
          else make_token TOK_ERROR ''Invalid/unterminated char literal''
                 (g_line t) (g_col t + 1))"
    using r0 r1 r2 r3
    by (auto simp: defs split: list.splits)
  show "pending (snd (read_char_literal t)) = spec_char_rest cs"
    using r0 r1 r2 r3 p1 p2 p3
    by (auto simp: defs spec_char_rest_def split: list.splits)
qed

lemma next_token_char_literal:
  assumes p: "pending s = SQ # cs"
  shows "\<exists>t. pending t = SQ # cs \<and> g_line t = g_line s \<and> g_col t = g_col s
           \<and> next_token s = read_char_literal t"
proof -
  have sp: "\<not> isspace (Some SQ)" "SQ \<noteq> CHR ''/''" by (simp_all add: isspace_def)
  have v: "view (skip_whitespace_and_comments s) = view s" by (rule skip_plain [OF p sp])
  then have "pending (skip_whitespace_and_comments s) = SQ # cs" using p by (simp add: view_def)
  from next_token_dispatch [OF this] obtain t where
    t: "view t = view (skip_whitespace_and_comments s)" "next_token s = dispatch SQ t"
    by auto
  have "dispatch SQ t = read_char_literal t" by (simp add: dispatch_def isalpha_def isdigit_def)
  with t v p show ?thesis by (auto simp: view_def)
qed

text \<open>
  C10, the claim as it is written, fails: the character after the opening quote is not
  always taken as the content. A newline there ends the attempt with an Error token, also
  when a closing quote follows.
\<close>

theorem newline_is_no_content:
  "fst (next_token (init_state [SQ, NL, SQ])) =
     \<lparr>type = TOK_ERROR, lexeme = ''Unterminated char literal'', line = 1, col = 1\<rparr>"
  by code_simp

text \<open>
  C10, amended. An empty character literal is never recognized as empty. The character
  \<open>c\<close> after an opening single quote, unless it is a newline, is consumed as content, also
  when it is itself a single quote: if \<open>c\<close> is not a backslash, \<open>next_token\<close> reads one
  more character and returns a CharLiteral token with the text \<open>c\<close> (the empty C string
  when \<open>c\<close> is NUL) when that character is a single quote, and an Error token otherwise;
  if \<open>c\<close> is a backslash, the content is the backslash and the character after it, which
  must not be a newline or the end of the input. A newline as \<open>c\<close> gives an Error token.
  So three single quotes give a CharLiteral whose text is one single quote, and two single
  quotes at the end of the input give an Error token. The token carries the line and the
  column (wrapping around as a C \<open>int\<close>) that the counters give for the opening quote.
\<close>

theorem char_literal_never_empty:
  assumes "pending s = SQ # c # rest"
  shows "(c \<noteq> NL \<and> c \<noteq> BS \<longrightarrow>
            fst (next_token s) =
              (if take 1 rest = [SQ]
               then \<lparr>type = TOK_CHAR, lexeme = (if c = NUL then [] else [c]),
                     line = g_line s, col = g_col s + 1\<rparr>
               else \<lparr>type = TOK_ERROR, lexeme = ''Invalid/unterminated char literal'',
                     line = g_line s, col = g_col s + 1\<rparr>)
            \<and> pending (snd (next_token s)) = drop 1 rest)
         \<and> (c = NL \<longrightarrow>
            fst (next_token s) =
              \<lparr>type = TOK_ERROR, lexeme = ''Unterminated char literal'',
               line = g_line s, col = g_col s + 1\<rparr>
            \<and> pending (snd (next_token s)) = rest)
         \<and> (c = BS \<longrightarrow>
            fst (next_token s) =
              (case rest of
                 [] \<Rightarrow> \<lparr>type = TOK_ERROR, lexeme = ''Unterminated char literal'',
                        line = g_line s, col = g_col s + 1\<rparr>
               | e # r \<Rightarrow>
                   if e = NL
                   then \<lparr>type = TOK_ERROR, lexeme = ''Unterminated char literal'',
                         line = g_line s, col = g_col s + 1\<rparr>
                   else if take 1 r = [SQ]
                   then \<lparr>type = TOK_CHAR, lexeme = (if e = NUL then [BS] else [BS, e]),
                         line = g_line s, col = g_col s + 1\<rparr>
                   else \<lparr>type = TOK_ERROR, lexeme = ''Invalid/unterminated char literal'',
                         line = g_line s, col = g_col s + 1\<rparr>))
         \<and> fst (next_token (init_state [SQ, SQ, SQ])) =
             \<lparr>type = TOK_CHAR, lexeme = [SQ], line = 1, col = 1\<rparr>
         \<and> type (fst (next_token (init_state [SQ, SQ]))) = TOK_ERROR"
proof -
  from next_token_char_literal [OF assms] obtain t where
    t: "pending t = SQ # c # rest" "g_line t = g_line s" "g_col t = g_col s"
    and nt: "next_token s = read_char_literal t" by blast
  note R = read_char_literal_cases [OF t(1)]
  have a: "fst (next_token (init_state [SQ, SQ, SQ])) =
             \<lparr>type = TOK_CHAR, lexeme = [SQ], line = 1, col = 1\<rparr>"
    by code_simp
  have b: "type (fst (next_token (init_state [SQ, SQ]))) = TOK_ERROR"
    by code_simp
  have tok: "fst (next_token s) =
      (if c = NL
       then make_token TOK_ERROR ''Unterminated char literal'' (g_line s) (g_col s + 1)
       else if c = BS then
         (case rest of
            [] \<Rightarrow> make_token TOK_ERROR ''Unterminated char literal'' (g_line s) (g_col s + 1)
          | e # r' \<Rightarrow>
              if e = NL
              then make_token TOK_ERROR ''Unterminated char literal'' (g_line s) (g_col s + 1)
              else if take 1 r' = [SQ]
              then make_token TOK_CHAR [BS, e] (g_line s) (g_col s + 1)
              else make_token TOK_ERROR ''Invalid/unterminated char literal''
                     (g_line s) (g_col s + 1))
       else if take 1 rest = [SQ]
       then make_token TOK_CHAR [c] (g_line s) (g_col s + 1)
       else make_token TOK_ERROR ''Invalid/unterminated char literal''
              (g_line s) (g_col s + 1))"
    unfolding nt t(2,3) [symmetric] using R(1) by simp
  have pe: "pending (snd (next_token s)) = spec_char_rest (c # rest)"
    using R(2) nt by simp
  have m1: "make_token TOK_ERROR ''Unterminated char literal'' l k =
      \<lparr>type = TOK_ERROR, lexeme = ''Unterminated char literal'', line = l, col = k\<rparr>"
    and m2: "make_token TOK_ERROR ''Invalid/unterminated char literal'' l k =
      \<lparr>type = TOK_ERROR, lexeme = ''Invalid/unterminated char literal'', line = l, col = k\<rparr>"
    and m3: "make_token TOK_CHAR [x] l k =
      \<lparr>type = TOK_CHAR, lexeme = (if x = NUL then [] else [x]), line = l, col = k\<rparr>"
    and m4: "make_token TOK_CHAR [BS, x] l k =
      \<lparr>type = TOK_CHAR, lexeme = (if x = NUL then [BS] else [BS, x]), line = l, col = k\<rparr>"
    for l k x
    by (simp_all add: make_token_def cstr_def MAX_LEXEME_LEN_def)
  show ?thesis
    using tok pe a b
    by (auto simp: m1 m2 m3 m4 spec_char_rest_def split: list.splits)
qed

theorem char_literal_never_empty_witness:
  "pending (init_state [SQ, SQ, SQ, CHR ''x'']) = SQ # SQ # [SQ, CHR ''x'']
   \<and> SQ \<noteq> NL \<and> SQ \<noteq> BS
   \<and> fst (next_token (init_state [SQ, SQ, SQ, CHR ''x''])) =
       \<lparr>type = TOK_CHAR, lexeme = [SQ], line = 1, col = 1\<rparr>
   \<and> pending (snd (next_token (init_state [SQ, SQ, SQ, CHR ''x'']))) = ''x''
   \<and> pending (init_state [SQ, NL, SQ]) = SQ # NL # [SQ]
   \<and> type (fst (next_token (init_state [SQ, NL, SQ]))) = TOK_ERROR
   \<and> pending (init_state [SQ, BS, CHR ''n'', SQ]) = SQ # BS # [CHR ''n'', SQ]
   \<and> fst (next_token (init_state [SQ, BS, CHR ''n'', SQ])) =
       \<lparr>type = TOK_CHAR, lexeme = [BS, CHR ''n''], line = 1, col = 1\<rparr>"
proof -
  have h1: "pending (init_state [SQ, SQ, SQ, CHR ''x'']) = SQ # SQ # [SQ, CHR ''x'']"
    and h2: "pending (init_state [SQ, NL, SQ]) = SQ # NL # [SQ]"
    and h3: "pending (init_state [SQ, BS, CHR ''n'', SQ]) = SQ # BS # [CHR ''n'', SQ]"
    by (simp_all add: pending_def init_state_def)
  show ?thesis
    using h1 h2 h3 char_literal_never_empty [OF h1] char_literal_never_empty [OF h2]
      char_literal_never_empty [OF h3]
    by (simp add: init_state_def)
qed

section \<open>What the tokens depend on\<close>

text \<open>
  Two states are alike when the same characters are still to be read; with \<open>P\<close> they
  also have the same counters. Two counter values, and two tokens, are related in the same
  way: the kind and the text of the tokens agree, and with \<open>P\<close> the line and the column
  too.
\<close>

definition alike :: "bool \<Rightarrow> lexer \<Rightarrow> lexer \<Rightarrow> bool" where
  "alike P s t \<longleftrightarrow> pending s = pending t \<and> (P \<longrightarrow> g_line s = g_line t \<and> g_col s = g_col t)"

definition cnt_rel :: "bool \<Rightarrow> c_int \<Rightarrow> c_int \<Rightarrow> bool" where
  "cnt_rel P a b \<longleftrightarrow> (P \<longrightarrow> a = b)"

definition tok_rel :: "bool \<Rightarrow> Token \<Rightarrow> Token \<Rightarrow> bool" where
  "tok_rel P a b \<longleftrightarrow>
     type a = type b \<and> lexeme a = lexeme b \<and> (P \<longrightarrow> line a = line b \<and> col a = col b)"

lemma counters_read_char:
  "g_line (snd (read_char s)) =
     (case pending s of [] \<Rightarrow> g_line s | x # xs \<Rightarrow> if x = NL then g_line s + 1 else g_line s)"
  "g_col (snd (read_char s)) =
     (case pending s of [] \<Rightarrow> g_col s | x # xs \<Rightarrow> if x = NL then 0 else g_col s + 1)"
  "pending (snd (read_char s)) = tl (pending s)"
  using view_read_char [of s] by (auto simp: view_def split: list.splits)

lemma read_char_alike0:
  assumes "alike P s t"
  shows "fst (read_char s) = fst (read_char t) \<and> alike P (snd (read_char s)) (snd (read_char t))"
  using assms by (auto simp: alike_def fst_read_char counters_read_char split: list.splits)

lemma read_char_alike [transfer_rule]:
  "rel_fun (alike P) (rel_prod (=) (alike P)) read_char read_char"
  by (simp add: rel_fun_def rel_prod_sel read_char_alike0)

lemma unread_char_alike0: "alike P s t \<Longrightarrow> alike P (unread_char c s) (unread_char c t)"
  by (simp add: alike_def unread_char_pending g_line_unread_char g_col_unread_char)

lemma unread_char_alike [transfer_rule]:
  "rel_fun (=) (rel_fun (alike P) (alike P)) unread_char unread_char"
  by (simp add: rel_fun_def unread_char_alike0)

lemma g_line_alike [transfer_rule]: "rel_fun (alike P) (cnt_rel P) g_line g_line"
  by (simp add: rel_fun_def alike_def cnt_rel_def)

lemma g_col_alike [transfer_rule]: "rel_fun (alike P) (cnt_rel P) g_col g_col"
  by (simp add: rel_fun_def alike_def cnt_rel_def)

lemma plus_cnt_rel [transfer_rule]: "rel_fun (cnt_rel P) (rel_fun (=) (cnt_rel P)) (+) (+)"
  by (simp add: rel_fun_def cnt_rel_def)

lemma make_token_rel [transfer_rule]:
  "rel_fun (=) (rel_fun (=) (rel_fun (cnt_rel P) (rel_fun (cnt_rel P) (tok_rel P))))
     make_token make_token"
  by (simp add: rel_fun_def cnt_rel_def tok_rel_def make_token_def)

lemma ws_loop_alike0:
  "alike P s t \<Longrightarrow> rel_prod (=) (alike P) (ws_loop c s) (ws_loop c t)"
proof (induction c s arbitrary: t rule: ws_loop.induct)
  case (1 c s)
  show ?case
  proof (cases "isspace c")
    case False
    with "1.prems" show ?thesis by (auto simp: ws_loop_stop)
  next
    case True
    obtain c1 s1 where r: "read_char s = (c1, s1)" by (cases "read_char s")
    obtain c2 t1 where r': "read_char t = (c2, t1)" by (cases "read_char t")
    from read_char_alike0 [OF "1.prems"] r r' have e: "c2 = c1" "alike P s1 t1" by simp_all
    from "1.IH" [OF True r [symmetric] e(2)] True r r' e(1)
    show ?thesis by (simp add: ws_loop_step)
  qed
qed

lemma line_loop_alike0:
  "alike P s t \<Longrightarrow> rel_prod (=) (alike P) (line_loop c s) (line_loop c t)"
proof (induction c s arbitrary: t rule: line_loop.induct)
  case (1 c s)
  show ?case
  proof (cases "c \<noteq> Some NL \<and> c \<noteq> None")
    case False
    with "1.prems" show ?thesis by (auto simp: line_loop_stop)
  next
    case True
    obtain c1 s1 where r: "read_char s = (c1, s1)" by (cases "read_char s")
    obtain c2 t1 where r': "read_char t = (c2, t1)" by (cases "read_char t")
    from read_char_alike0 [OF "1.prems"] r r' have e: "c2 = c1" "alike P s1 t1" by simp_all
    from "1.IH" [OF True r [symmetric] e(2)] True r r' e(1)
    show ?thesis by (simp add: line_loop_step)
  qed
qed

lemma block_loop_alike0:
  "alike P s t \<Longrightarrow> rel_prod (=) (alike P) (block_loop p c s) (block_loop p c t)"
proof (induction p c s arbitrary: t rule: block_loop.induct)
  case (1 p c s)
  show ?case
  proof (cases c)
    case None
    with "1.prems" show ?thesis by (simp add: block_loop_None)
  next
    case (Some x)
    show ?thesis
    proof (cases "p = CHR ''*'' \<and> x = CHR ''/''")
      case True
      with Some "1.prems" show ?thesis by (simp add: block_loop_close)
    next
      case False
      obtain c1 s1 where r: "read_char s = (c1, s1)" by (cases "read_char s")
      obtain c2 t1 where r': "read_char t = (c2, t1)" by (cases "read_char t")
      from read_char_alike0 [OF "1.prems"] r r' have e: "c2 = c1" "alike P s1 t1" by simp_all
      from "1.IH" [OF Some False r [symmetric] e(2)] False Some r r' e(1)
      show ?thesis by (simp add: block_loop_step)
    qed
  qed
qed

lemma ident_loop_alike0:
  "alike P s t \<Longrightarrow> rel_prod (=) (rel_prod (=) (alike P)) (ident_loop c buf s) (ident_loop c buf t)"
proof (induction c buf s arbitrary: t rule: ident_loop.induct)
  case (1 c buf s)
  show ?case
  proof (cases "idchar c")
    case False
    with "1.prems" show ?thesis by (simp add: ident_loop_stop)
  next
    case True
    obtain c1 s1 where r: "read_char s = (c1, s1)" by (cases "read_char s")
    obtain c2 t1 where r': "read_char t = (c2, t1)" by (cases "read_char t")
    from read_char_alike0 [OF "1.prems"] r r' have e: "c2 = c1" "alike P s1 t1" by simp_all
    from "1.IH" [OF True r [symmetric] e(2)] True r r' e(1)
    show ?thesis by (simp add: ident_loop_step)
  qed
qed

lemma ident_loop_alike [transfer_rule]:
  "rel_fun (=) (rel_fun (=) (rel_fun (alike P) (rel_prod (=) (rel_prod (=) (alike P)))))
     ident_loop ident_loop"
  by (simp add: rel_fun_def ident_loop_alike0)

lemma digit_loop_alike0:
  "alike P s t \<Longrightarrow> rel_prod (=) (rel_prod (=) (alike P)) (digit_loop c buf s) (digit_loop c buf t)"
proof (induction c buf s arbitrary: t rule: digit_loop.induct)
  case (1 c buf s)
  show ?case
  proof (cases "isdigit c")
    case False
    with "1.prems" show ?thesis by (simp add: digit_loop_stop)
  next
    case True
    obtain c1 s1 where r: "read_char s = (c1, s1)" by (cases "read_char s")
    obtain c2 t1 where r': "read_char t = (c2, t1)" by (cases "read_char t")
    from read_char_alike0 [OF "1.prems"] r r' have e: "c2 = c1" "alike P s1 t1" by simp_all
    from "1.IH" [OF True r [symmetric] e(2)] True r r' e(1)
    show ?thesis by (simp add: digit_loop_step)
  qed
qed

lemma digit_loop_alike [transfer_rule]:
  "rel_fun (=) (rel_fun (=) (rel_fun (alike P) (rel_prod (=) (rel_prod (=) (alike P)))))
     digit_loop digit_loop"
  by (simp add: rel_fun_def digit_loop_alike0)

lemma string_loop_alike0:
  "alike P s t \<Longrightarrow> rel_prod (=) (alike P) (string_loop c buf s) (string_loop c buf t)"
proof (induction c buf s arbitrary: t rule: string_loop.induct)
  case (1 c buf s)
  show ?case
  proof (cases c)
    case None
    with "1.prems" show ?thesis by (simp add: string_loop_None)
  next
    case (Some x)
    obtain c1 s1 where r1: "read_char s = (c1, s1)" by (cases "read_char s")
    obtain c1' t1 where r1': "read_char t = (c1', t1)" by (cases "read_char t")
    from read_char_alike0 [OF "1.prems"] r1 r1' have e1: "c1' = c1" "alike P s1 t1" by simp_all
    consider "x = DQ" | "x = NL" | "x = BS" "c1 = None" | y where "x = BS" "c1 = Some y"
      | "x \<noteq> DQ" "x \<noteq> NL" "x \<noteq> BS"
      by (cases c1) auto
    then show ?thesis
    proof cases
      case 1
      with Some "1.prems" show ?thesis by (simp add: string_loop_DQ)
    next
      case 2
      with Some "1.prems" show ?thesis by (simp add: string_loop_NL)
    next
      case 3
      with Some r1 r1' e1 show ?thesis by (simp add: string_loop_BS_None)
    next
      case 4
      obtain c2 s2 where r2: "read_char s1 = (c2, s2)" by (cases "read_char s1")
      obtain c2' t2 where r2': "read_char t1 = (c2', t2)" by (cases "read_char t1")
      from read_char_alike0 [OF e1(2)] r2 r2' have e2: "c2' = c2" "alike P s2 t2" by simp_all
      from "1.IH"(1) [OF Some _ _ _ r1 [symmetric] _ r2 [symmetric] e2(2)] 4 Some r1 r1' e1 r2 r2' e2
      show ?thesis by (simp add: string_loop_BS_Some)
    next
      case 5
      from "1.IH"(2) [OF Some 5 r1 [symmetric] e1(2)] 5 Some r1 r1' e1
      show ?thesis by (simp add: string_loop_plain)
    qed
  qed
qed

lemma string_loop_alike [transfer_rule]:
  "rel_fun (=) (rel_fun (=) (rel_fun (alike P) (rel_prod (=) (alike P)))) string_loop string_loop"
  by (simp add: rel_fun_def string_loop_alike0)

lemma skip_alike0:
  "alike P s t \<Longrightarrow> alike P (skip_whitespace_and_comments s) (skip_whitespace_and_comments t)"
proof (induction s arbitrary: t rule: skip_whitespace_and_comments.induct)
  case (1 s)
  obtain c0 s0 where r0: "read_char s = (c0, s0)" by (cases "read_char s")
  obtain c0' t0 where r0': "read_char t = (c0', t0)" by (cases "read_char t")
  from read_char_alike0 [OF "1.prems"] r0 r0' have e0: "c0' = c0" "alike P s0 t0" by simp_all
  obtain c s1 where w: "ws_loop c0 s0 = (c, s1)" by (cases "ws_loop c0 s0")
  obtain c' t1 where w': "ws_loop c0 t0 = (c', t1)" by (cases "ws_loop c0 t0")
  from ws_loop_alike0 [OF e0(2), of c0] w w' have e1: "c' = c" "alike P s1 t1" by simp_all
  show ?case
  proof (cases "c = Some CHR ''/''")
    case False
    have "skip_whitespace_and_comments s = unread_char c s1"
      using False r0 w by (subst skip_whitespace_and_comments.simps) simp
    moreover have "skip_whitespace_and_comments t = unread_char c t1"
      using False r0' e0 w' e1 by (subst skip_whitespace_and_comments.simps) simp
    ultimately show ?thesis using unread_char_alike0 [OF e1(2)] by simp
  next
    case True
    obtain nx s2 where r2: "read_char s1 = (nx, s2)" by (cases "read_char s1")
    obtain nx' t2 where r2': "read_char t1 = (nx', t2)" by (cases "read_char t1")
    from read_char_alike0 [OF e1(2)] r2 r2' have e2: "nx' = nx" "alike P s2 t2" by simp_all
    obtain ch s3 where r3: "read_char s2 = (ch, s3)" by (cases "read_char s2")
    obtain ch' t3 where r3': "read_char t2 = (ch', t3)" by (cases "read_char t2")
    from read_char_alike0 [OF e2(2)] r3 r3' have e3: "ch' = ch" "alike P s3 t3" by simp_all
    show ?thesis
    proof (cases "nx = Some CHR ''/''")
      case nx: True
      obtain d s4 where l: "line_loop ch s3 = (d, s4)" by (cases "line_loop ch s3")
      obtain d' t4 where l': "line_loop ch t3 = (d', t4)" by (cases "line_loop ch t3")
      from line_loop_alike0 [OF e3(2), of ch] l l' have e4: "alike P s4 t4" by simp
      have "skip_whitespace_and_comments s = skip_whitespace_and_comments s4"
        using r0 w True r2 nx r3 l by (subst skip_whitespace_and_comments.simps) simp
      moreover have "skip_whitespace_and_comments t = skip_whitespace_and_comments t4"
        using r0' e0 w' e1 True r2' e2 nx r3' e3 l'
        by (subst skip_whitespace_and_comments.simps) simp
      ultimately show ?thesis
        using "1.IH"(1) [OF r0 [symmetric] w [symmetric] True r2 [symmetric] nx r3 [symmetric]
                           l [symmetric] e4]
        by simp
    next
      case nnx: False
      show ?thesis
      proof (cases "nx = Some CHR ''*''")
        case st: True
        obtain d s4 where l: "block_loop NUL ch s3 = (d, s4)"
          by (cases "block_loop NUL ch s3")
        obtain d' t4 where l': "block_loop NUL ch t3 = (d', t4)"
          by (cases "block_loop NUL ch t3")
        from block_loop_alike0 [OF e3(2), of NUL ch] l l' have e4: "alike P s4 t4" by simp
        have "skip_whitespace_and_comments s = skip_whitespace_and_comments s4"
          using r0 w True r2 nnx st r3 l by (subst skip_whitespace_and_comments.simps) simp
        moreover have "skip_whitespace_and_comments t = skip_whitespace_and_comments t4"
          using r0' e0 w' e1 True r2' e2 nnx st r3' e3 l'
          by (subst skip_whitespace_and_comments.simps) simp
        ultimately show ?thesis
          using "1.IH"(2) [OF r0 [symmetric] w [symmetric] True r2 [symmetric] nnx st
                             r3 [symmetric] l [symmetric] e4]
          by simp
      next
        case False
        have "skip_whitespace_and_comments s = unread_char c (unread_char nx s2)"
          using r0 w True r2 nnx False by (subst skip_whitespace_and_comments.simps) simp
        moreover have "skip_whitespace_and_comments t = unread_char c (unread_char nx t2)"
          using r0' e0 w' e1 True r2' e2 nnx False
          by (subst skip_whitespace_and_comments.simps) simp
        ultimately show ?thesis
          using unread_char_alike0 [OF unread_char_alike0 [OF e2(2)]] by simp
      qed
    qed
  qed
qed

lemma skip_alike [transfer_rule]:
  "rel_fun (alike P) (alike P) skip_whitespace_and_comments skip_whitespace_and_comments"
  by (simp add: rel_fun_def skip_alike0)

lemma read_identifier_alike [transfer_rule]:
  "rel_fun (alike P) (rel_prod (tok_rel P) (alike P)) read_identifier_or_keyword read_identifier_or_keyword"
  unfolding read_identifier_or_keyword_def by transfer_prover

lemma read_number_alike [transfer_rule]:
  "rel_fun (alike P) (rel_prod (tok_rel P) (alike P)) read_number read_number"
  unfolding read_number_def by transfer_prover

lemma read_string_alike [transfer_rule]:
  "rel_fun (alike P) (rel_prod (tok_rel P) (alike P)) read_string read_string"
  unfolding read_string_def by transfer_prover

lemma read_char_literal_alike [transfer_rule]:
  "rel_fun (alike P) (rel_prod (tok_rel P) (alike P)) read_char_literal read_char_literal"
  unfolding read_char_literal_def by transfer_prover

lemma read_operator_alike [transfer_rule]:
  "rel_fun (alike P) (rel_prod (tok_rel P) (alike P)) read_operator_or_separator read_operator_or_separator"
  unfolding read_operator_or_separator_def by transfer_prover













section \<open>The layout in the words of the specification\<close>

text \<open>
  Section 4.1 of the specification, on the characters of the input. These definitions are
  not taken from the code; the skipper is compared with them. A block comment that has been
  opened ends after the first asterisk that is followed by a slash, or at the end of the
  input.
\<close>

fun spec_after_block :: "string \<Rightarrow> string" where
  "spec_after_block (x # y # r) =
     (if x = CHR ''*'' \<and> y = CHR ''/'' then r else spec_after_block (y # r))"
| "spec_after_block [x] = []"
| "spec_after_block [] = []"

lemma spec_after_block_length: "length (spec_after_block cs) \<le> length cs"
  by (induction cs rule: spec_after_block.induct) auto

text \<open>
  Whitespace is passed over; after it, two slashes open a comment that ends before the end
  of the line, a slash and an asterisk open a block comment, and the whole starts again;
  anything else is where the next token begins.
\<close>

function spec_skip :: "string \<Rightarrow> string" where
  "spec_skip cs =
     (case dropWhile (\<lambda>x. isspace (Some x)) cs of
        x # y # r \<Rightarrow>
          if x = CHR ''/'' \<and> y = CHR ''/'' then spec_skip (dropWhile (\<lambda>z. z \<noteq> NL) r)
          else if x = CHR ''/'' \<and> y = CHR ''*'' then spec_skip (spec_after_block r)
          else x # y # r
      | r \<Rightarrow> r)"
  by pat_completeness auto
termination
proof (relation "measure length")
  show "wf (measure length)" by simp
next
  fix cs x xs y r
  assume a: "dropWhile (\<lambda>x. isspace (Some x)) cs = x # xs" "xs = y # r"
  have "length (x # y # r) \<le> length cs"
    using length_dropWhile_le [of "\<lambda>x. isspace (Some x)" cs] a by simp
  moreover have "length (dropWhile (\<lambda>z. z \<noteq> NL) r) \<le> length r"
    by (rule length_dropWhile_le)
  ultimately show "(dropWhile (\<lambda>z. z \<noteq> NL) r, cs) \<in> measure length" by simp
next
  fix cs x xs y r
  assume a: "dropWhile (\<lambda>x. isspace (Some x)) cs = x # xs" "xs = y # r"
  have "length (x # y # r) \<le> length cs"
    using length_dropWhile_le [of "\<lambda>x. isspace (Some x)" cs] a by simp
  then show "(spec_after_block r, cs) \<in> measure length"
    using spec_after_block_length [of r] by simp
qed

declare spec_skip.simps [simp del]


text \<open>
  A character held in a local variable belongs in front of what is pending; when it is
  \<open>EOF\<close>, nothing is pending.
\<close>

definition fresh :: "char option \<Rightarrow> lexer \<Rightarrow> bool" where
  "fresh c s \<longleftrightarrow> (c = None \<longrightarrow> pending s = [])"

lemma read_char_fresh:
  "read_char s = (c, s') \<Longrightarrow> ostr c @ pending s' = pending s \<and> fresh c s'"
  using read_char_cases [of s] by (auto simp: fresh_def split: list.splits)

lemma ws_loop_spec:
  "fresh c s \<Longrightarrow> ws_loop c s = (c', s') \<Longrightarrow>
     ostr c' @ pending s' = dropWhile (\<lambda>x. isspace (Some x)) (ostr c @ pending s)
     \<and> fresh c' s'"
proof (induction c s rule: ws_loop.induct)
  case (1 c s)
  show ?case
  proof (cases "isspace c")
    case False
    with "1.prems" show ?thesis
      by (cases c) (auto simp: ws_loop_stop fresh_def)
  next
    case True
    then obtain x where x: "c = Some x" by (auto dest: isspace_Some)
    obtain c1 s1 where r: "read_char s = (c1, s1)" by (cases "read_char s")
    from True r "1.prems" have "ws_loop c1 s1 = (c', s')" by (simp add: ws_loop_step)
    from "1.IH" [OF True r [symmetric] _ this] read_char_fresh [OF r] True x
    show ?thesis by simp
  qed
qed

lemma line_loop_spec:
  "fresh c s \<Longrightarrow> line_loop c s = (c', s') \<Longrightarrow>
     ostr c' @ pending s' = dropWhile (\<lambda>z. z \<noteq> NL) (ostr c @ pending s) \<and> fresh c' s'
     \<and> (c' = Some NL \<or> c' = None)"
proof (induction c s rule: line_loop.induct)
  case (1 c s)
  show ?case
  proof (cases "c \<noteq> Some NL \<and> c \<noteq> None")
    case False
    with "1.prems" show ?thesis
      by (cases c) (auto simp: line_loop_stop fresh_def)
  next
    case True
    then obtain x where x: "c = Some x" "x \<noteq> NL" by auto
    obtain c1 s1 where r: "read_char s = (c1, s1)" by (cases "read_char s")
    from True r "1.prems" have "line_loop c1 s1 = (c', s')" by (simp add: line_loop_step)
    from "1.IH" [OF True r [symmetric] _ this] read_char_fresh [OF r] x
    show ?thesis by simp
  qed
qed

lemma block_loop_spec:
  "fresh c s \<Longrightarrow>
     pending (snd (block_loop p c s)) = spec_after_block (p # ostr c @ pending s)"
proof (induction p c s rule: block_loop.induct)
  case (1 p c s)
  show ?case
  proof (cases c)
    case None
    with "1.prems" show ?thesis by (simp add: block_loop_None fresh_def)
  next
    case (Some x)
    show ?thesis
    proof (cases "p = CHR ''*'' \<and> x = CHR ''/''")
      case True
      with Some show ?thesis by (simp add: block_loop_close)
    next
      case False
      obtain c1 s1 where r: "read_char s = (c1, s1)" by (cases "read_char s")
      have step: "block_loop p c s = block_loop x c1 s1"
        using False Some r by (simp add: block_loop_step)
      from "1.IH" [OF Some False r [symmetric]] read_char_fresh [OF r]
      have "pending (snd (block_loop x c1 s1)) = spec_after_block (x # pending s)" by simp
      with step False Some show ?thesis by auto
    qed
  qed
qed

lemma spec_after_block_NUL: "spec_after_block (NUL # cs) = spec_after_block cs"
  by (cases cs) simp_all

lemma spec_skip_space: "isspace (Some x) \<Longrightarrow> spec_skip (x # cs) = spec_skip cs"
  by (subst spec_skip.simps, subst (2) spec_skip.simps) simp

lemma spec_skip_Nil: "spec_skip [] = []"
  by (subst spec_skip.simps) simp

lemma spec_skip_dropWhile:
  "spec_skip (dropWhile (\<lambda>x. isspace (Some x)) cs) = spec_skip cs"
  by (induction cs) (simp_all add: spec_skip_space)

lemma spec_skip_stop:
  assumes "dropWhile (\<lambda>x. isspace (Some x)) cs = d"
    and "d = [] \<or> hd d \<noteq> CHR ''/'' \<or> tl d = []
         \<or> (hd (tl d) \<noteq> CHR ''/'' \<and> hd (tl d) \<noteq> CHR ''*'')"
  shows "spec_skip cs = d"
  using assms by (subst spec_skip.simps) (auto split: list.splits)

lemma spec_skip_line:
  assumes "dropWhile (\<lambda>x. isspace (Some x)) cs = CHR ''/'' # CHR ''/'' # r"
  shows "spec_skip cs = spec_skip (dropWhile (\<lambda>z. z \<noteq> NL) r)"
  using assms by (subst spec_skip.simps) simp

lemma spec_skip_block:
  assumes "dropWhile (\<lambda>x. isspace (Some x)) cs = CHR ''/'' # CHR ''*'' # r"
  shows "spec_skip cs = spec_skip (spec_after_block r)"
  using assms by (subst spec_skip.simps) simp

lemma skip_spec: "pending (skip_whitespace_and_comments s) = spec_skip (pending s)"
proof (induction s rule: skip_whitespace_and_comments.induct)
  case (1 s)
  let ?sp = "\<lambda>x. isspace (Some x)"
  obtain c0 s0 where r0: "read_char s = (c0, s0)" by (cases "read_char s")
  obtain c s1 where w: "ws_loop c0 s0 = (c, s1)" by (cases "ws_loop c0 s0")
  note f0 = read_char_fresh [OF r0]
  from ws_loop_spec [OF _ w] f0
  have d: "ostr c @ pending s1 = dropWhile ?sp (pending s)" and f1: "fresh c s1" by simp_all
  show ?case
  proof (cases "c = Some CHR ''/''")
    case False
    have "skip_whitespace_and_comments s = unread_char c s1"
      using False r0 w by (subst skip_whitespace_and_comments.simps) simp
    then have "pending (skip_whitespace_and_comments s) = ostr c @ pending s1"
      by (simp add: unread_char_pending)
    moreover have "spec_skip (pending s) = ostr c @ pending s1"
    proof (rule spec_skip_stop [OF d [symmetric]])
      show "ostr c @ pending s1 = [] \<or> hd (ostr c @ pending s1) \<noteq> CHR ''/''
            \<or> tl (ostr c @ pending s1) = []
            \<or> (hd (tl (ostr c @ pending s1)) \<noteq> CHR ''/''
                \<and> hd (tl (ostr c @ pending s1)) \<noteq> CHR ''*'')"
        using False f1 by (cases c) (auto simp: fresh_def)
    qed
    ultimately show ?thesis by simp
  next
    case True
    obtain nx s2 where r2: "read_char s1 = (nx, s2)" by (cases "read_char s1")
    note f2 = read_char_fresh [OF r2]
    obtain ch s3 where r3: "read_char s2 = (ch, s3)" by (cases "read_char s2")
    note f3 = read_char_fresh [OF r3]
    have d2: "dropWhile ?sp (pending s) = CHR ''/'' # ostr nx @ pending s2"
      using d True f2 by simp
    show ?thesis
    proof (cases "nx = Some CHR ''/''")
      case nx: True
      obtain ch' s4 where l: "line_loop ch s3 = (ch', s4)" by (cases "line_loop ch s3")
      have eq: "skip_whitespace_and_comments s = skip_whitespace_and_comments s4"
        using r0 w True r2 nx r3 l by (subst skip_whitespace_and_comments.simps) simp
      from line_loop_spec [OF _ l] f3
      have e: "ostr ch' @ pending s4 = dropWhile (\<lambda>z. z \<noteq> NL) (pending s2)"
        and f4: "fresh ch' s4" and ch': "ch' = Some NL \<or> ch' = None" by simp_all
      have "spec_skip (ostr ch' @ pending s4) = spec_skip (pending s4)"
        using ch' f4 by (auto simp: spec_skip_space isspace_def fresh_def)
      moreover have "spec_skip (pending s) = spec_skip (dropWhile (\<lambda>z. z \<noteq> NL) (pending s2))"
        using d2 nx by (intro spec_skip_line) simp
      ultimately have "spec_skip (pending s) = spec_skip (pending s4)" using e by simp
      with "1.IH"(1) [OF r0 [symmetric] w [symmetric] True r2 [symmetric] nx r3 [symmetric]
                        l [symmetric]] eq
      show ?thesis by simp
    next
      case nnx: False
      show ?thesis
      proof (cases "nx = Some CHR ''*''")
        case st: True
        obtain ch' s4 where l: "block_loop NUL ch s3 = (ch', s4)"
          by (cases "block_loop NUL ch s3")
        have eq: "skip_whitespace_and_comments s = skip_whitespace_and_comments s4"
          using r0 w True r2 nnx st r3 l by (subst skip_whitespace_and_comments.simps) simp
        from block_loop_spec [of ch s3 NUL] f3 l
        have "pending s4 = spec_after_block (pending s2)"
          by (simp add: spec_after_block_NUL)
        moreover have "spec_skip (pending s) = spec_skip (spec_after_block (pending s2))"
          using d2 st by (intro spec_skip_block) simp
        ultimately have "spec_skip (pending s) = spec_skip (pending s4)" by simp
        with "1.IH"(2) [OF r0 [symmetric] w [symmetric] True r2 [symmetric] nnx st
                          r3 [symmetric] l [symmetric]] eq
        show ?thesis by simp
      next
        case False
        have eq: "skip_whitespace_and_comments s = unread_char c (unread_char nx s2)"
          using r0 w True r2 nnx False by (subst skip_whitespace_and_comments.simps) simp
        then have "pending (skip_whitespace_and_comments s) = CHR ''/'' # ostr nx @ pending s2"
          using True by (simp add: unread_char_pending)
        moreover have "spec_skip (pending s) = CHR ''/'' # ostr nx @ pending s2"
        proof (rule spec_skip_stop [OF d2])
          show "CHR ''/'' # ostr nx @ pending s2 = []
                \<or> hd (CHR ''/'' # ostr nx @ pending s2) \<noteq> CHR ''/''
                \<or> tl (CHR ''/'' # ostr nx @ pending s2) = []
                \<or> (hd (tl (CHR ''/'' # ostr nx @ pending s2)) \<noteq> CHR ''/''
                    \<and> hd (tl (CHR ''/'' # ostr nx @ pending s2)) \<noteq> CHR ''*'')"
            using nnx False f2 [THEN conjunct2] by (cases nx) (auto simp: fresh_def)
        qed
        ultimately show ?thesis by simp
      qed
    qed
  qed
qed

section \<open>The lexemes in the words of the specification\<close>

text \<open>
  What is left of the input after the lexeme that begins at its head, class by class
  (sections 4.2 to 4.6 of the specification). These definitions are not taken from the
  code; the sub-scanners are compared with them.
\<close>

definition spec_number_rest :: "string \<Rightarrow> string" where
  "spec_number_rest cs =
     (case dropWhile (\<lambda>z. isdigit (Some z)) cs of
        [] \<Rightarrow> []
      | x # r \<Rightarrow> if x = CHR ''.'' then dropWhile (\<lambda>z. isdigit (Some z)) r else x # r)"

fun spec_string_rest :: "string \<Rightarrow> string" where
  "spec_string_rest [] = []"
| "spec_string_rest (x # xs) =
     (if x = DQ then xs
      else if x = NL then xs
      else if x = BS then (case xs of [] \<Rightarrow> [] | y # ys \<Rightarrow> spec_string_rest ys)
      else spec_string_rest xs)"

definition spec_lexeme_rest :: "string \<Rightarrow> string" where
  "spec_lexeme_rest cs =
     (case cs of
        [] \<Rightarrow> []
      | x # xs \<Rightarrow>
          if isalpha (Some x) \<or> x = CHR ''_'' then dropWhile (\<lambda>z. idchar (Some z)) xs
          else if isdigit (Some x) then spec_number_rest (x # xs)
          else if x = DQ then spec_string_rest xs
          else if x = SQ then spec_char_rest xs
          else if is_separator_char (Some x) then xs
          else if x # take 1 xs \<in> set two_ops then tl xs
          else xs)"

text \<open>
  The characters \<open>src\<close> that a token stands for: none for EndOfInput; for a string or a
  character literal the quotes with the contents between them; for an Error token the
  beginning of a literal; for every other token the characters of its text (all of them
  when they fit: 64 for an identifier, 255 otherwise).
\<close>

definition spec_attributed :: "Token \<Rightarrow> string \<Rightarrow> bool" where
  "spec_attributed tok src =
     (case type tok of
        TOK_EOF \<Rightarrow> src = []
      | TOK_IDENTIFIER \<Rightarrow> src \<noteq> [] \<and> lexeme tok = take MAX_ID_LEN src
      | TOK_STRING \<Rightarrow>
          (\<exists>body. src = DQ # body @ [DQ] \<and> spec_contents body
             \<and> (length body \<le> MAX_LEXEME_LEN - 2 \<and> NUL \<notin> set body \<longrightarrow> lexeme tok = body))
      | TOK_CHAR \<Rightarrow> (\<exists>body. src = SQ # body @ [SQ] \<and> lexeme tok = cstr body)
      | TOK_ERROR \<Rightarrow> src \<noteq> [] \<and> (hd src = DQ \<or> hd src = SQ)
      | _ \<Rightarrow> src \<noteq> [] \<and> lexeme tok = take (MAX_LEXEME_LEN - 1) (cstr src))"

lemma digit_loop_spec:
  "fresh c s \<Longrightarrow> length buf \<le> MAX_LEXEME_LEN - 1 \<Longrightarrow>
     \<exists>c' s'. digit_loop c buf s =
                (c', take (MAX_LEXEME_LEN - 1)
                       (buf @ takeWhile (\<lambda>z. isdigit (Some z)) (ostr c @ pending s)), s')
            \<and> ostr c' @ pending s' = dropWhile (\<lambda>z. isdigit (Some z)) (ostr c @ pending s)
            \<and> fresh c' s'"
proof (induction c buf s rule: digit_loop.induct)
  case (1 c buf s)
  show ?case
  proof (cases "isdigit c")
    case False
    with "1.prems" show ?thesis
      by (cases c) (auto simp: digit_loop_stop fresh_def)
  next
    case True
    then obtain x where x: "c = Some x" by (auto dest: isdigit_Some)
    obtain c1 s1 where r: "read_char s = (c1, s1)" by (cases "read_char s")
    note f = read_char_fresh [OF r]
    have len: "length (put (MAX_LEXEME_LEN - 1) buf (to_char c)) \<le> MAX_LEXEME_LEN - 1"
      using "1.prems"(2) by (simp add: put_def)
    from "1.IH" [OF True r [symmetric] _ len] f obtain c' s' where
      l: "digit_loop c1 (put (MAX_LEXEME_LEN - 1) buf (to_char c)) s1 =
            (c', take (MAX_LEXEME_LEN - 1)
                   (put (MAX_LEXEME_LEN - 1) buf (to_char c)
                    @ takeWhile (\<lambda>z. isdigit (Some z)) (ostr c1 @ pending s1)), s')"
      and d: "ostr c' @ pending s' = dropWhile (\<lambda>z. isdigit (Some z)) (ostr c1 @ pending s1)"
      and f': "fresh c' s'" by auto
    let ?T = "takeWhile (\<lambda>z. isdigit (Some z)) (pending s)"
    have e1: "to_char c = x" using x by (simp add: to_char_def)
    have e2: "ostr c1 @ pending s1 = pending s" using f by simp
    have step: "digit_loop c buf s = digit_loop c1 (put (MAX_LEXEME_LEN - 1) buf x) s1"
      using True r e1 by (simp add: digit_loop_step)
    have tp: "take (MAX_LEXEME_LEN - 1) (put (MAX_LEXEME_LEN - 1) buf x @ ?T) =
              take (MAX_LEXEME_LEN - 1) (buf @ x # ?T)"
      by (rule take_put_append [OF "1.prems"(2)])
    have "digit_loop c buf s = (c', take (MAX_LEXEME_LEN - 1) (buf @ x # ?T), s')"
      using l unfolding step e1 e2 tp .
    with d f f' True x show ?thesis by simp
  qed
qed

lemma string_loop_rest:
  "fresh c s \<Longrightarrow> pending (snd (string_loop c buf s)) = spec_string_rest (ostr c @ pending s)"
proof (induction c buf s rule: string_loop.induct)
  case (1 c buf s)
  show ?case
  proof (cases c)
    case None
    with "1.prems" show ?thesis by (simp add: string_loop_None fresh_def)
  next
    case (Some x)
    obtain c1 s1 where r1: "read_char s = (c1, s1)" by (cases "read_char s")
    note f1 = read_char_fresh [OF r1]
    have p1: "pending s = ostr c1 @ pending s1" using f1 by simp
    consider "x = DQ" | "x = NL" | "x = BS" "c1 = None" | y where "x = BS" "c1 = Some y"
      | "x \<noteq> DQ" "x \<noteq> NL" "x \<noteq> BS"
      by (cases c1) auto
    then show ?thesis
    proof cases
      case 1
      with Some show ?thesis by (simp add: string_loop_DQ)
    next
      case 2
      with Some show ?thesis by (simp add: string_loop_NL)
    next
      case 3
      with Some r1 f1 p1 show ?thesis by (simp add: string_loop_BS_None fresh_def)
    next
      case 4
      obtain c2 s2 where r2: "read_char s1 = (c2, s2)" by (cases "read_char s1")
      note f2 = read_char_fresh [OF r2]
      have p2: "pending s1 = ostr c2 @ pending s2" using f2 by simp
      have step: "string_loop c buf s =
          string_loop c2 (put (MAX_LEXEME_LEN - 2) (put (MAX_LEXEME_LEN - 2) buf x) y) s2"
        using 4 Some r1 r2 by (simp add: string_loop_BS_Some)
      from "1.IH"(1) [OF Some _ _ _ r1 [symmetric] _ r2 [symmetric]] 4 f2
      have "pending (snd (string_loop c2
              (put (MAX_LEXEME_LEN - 2) (put (MAX_LEXEME_LEN - 2) buf x) y) s2)) =
            spec_string_rest (ostr c2 @ pending s2)" by simp
      with step Some 4 p1 p2 show ?thesis by simp
    next
      case 5
      have step: "string_loop c buf s = string_loop c1 (put (MAX_LEXEME_LEN - 1) buf x) s1"
        using 5 Some r1 by (simp add: string_loop_plain)
      from "1.IH"(2) [OF Some 5 r1 [symmetric]] f1
      have "pending (snd (string_loop c1 (put (MAX_LEXEME_LEN - 1) buf x) s1)) =
            spec_string_rest (ostr c1 @ pending s1)" by simp
      with step Some 5 p1 show ?thesis by simp
    qed
  qed
qed

lemma spec_body_rest:
  "spec_string_body cs = Some (body, rest) \<Longrightarrow>
     spec_string_rest cs = rest \<and> cs = body @ DQ # rest \<and> spec_contents body"
proof (induction "length cs" arbitrary: cs body rule: less_induct)
  case less
  show ?case
  proof (cases cs)
    case Nil
    with less.prems show ?thesis by simp
  next
    case (Cons x xs)
    consider "x = DQ" | y ys where "x = BS" "xs = y # ys" "x \<noteq> DQ" "x \<noteq> NL"
      | "x \<noteq> DQ" "x \<noteq> NL" "x \<noteq> BS"
      using less.prems Cons by (cases xs) (auto split: if_splits)
    then show ?thesis
    proof cases
      case 1
      with less.prems Cons show ?thesis by simp
    next
      case 2
      with less.prems Cons obtain b where
        b: "spec_string_body ys = Some (b, rest)" "body = x # y # b"
        by (auto split: option.splits)
      have "length ys < length cs" using Cons 2 by simp
      from less.hyps [OF this b(1)]
      have A: "spec_string_rest ys = rest" "ys = b @ DQ # rest" "spec_contents b" by blast+
      have "spec_string_rest cs = rest" using Cons 2 A(1) by simp
      moreover have "cs = body @ DQ # rest" using Cons 2 A(2) b(2) by simp
      moreover have "spec_contents body" using 2 A(3) b(2) by simp
      ultimately show ?thesis by simp
    next
      case 3
      with less.prems Cons obtain b where
        b: "spec_string_body xs = Some (b, rest)" "body = x # b"
        by (auto split: option.splits)
      have "length xs < length cs" using Cons by simp
      from less.hyps [OF this b(1)]
      have A: "spec_string_rest xs = rest" "xs = b @ DQ # rest" "spec_contents b" by blast+
      have "spec_string_rest cs = rest" using Cons 3 A(1) by simp
      moreover have "cs = body @ DQ # rest" using Cons A(2) b(2) by simp
      moreover have "spec_contents body" using 3 A(3) b(2) by simp
      ultimately show ?thesis by simp
    qed
  qed
qed


lemma put_length: "length buf \<le> n \<Longrightarrow> length (put n buf x) \<le> n"
  by (simp add: put_def)

lemma take_take_append: "take n (take n xs @ ys) = take n (xs @ ys)"
  by (cases "length xs \<le> n") (simp_all add: min_def)

lemma digits_no_NUL: "NUL \<notin> set (takeWhile (\<lambda>z. isdigit (Some z)) cs)"
  by (auto dest!: set_takeWhileD simp: isdigit_def)

lemma read_number_spec:
  assumes p: "pending t = x # xs" and dg: "isdigit (Some x)"
  shows "pending (snd (read_number t)) = spec_number_rest (x # xs)"
    and "\<exists>src. x # xs = src @ spec_number_rest (x # xs)
               \<and> spec_attributed (fst (read_number t)) src"
proof -
  let ?dg = "\<lambda>z. isdigit (Some z)"
  let ?n = "MAX_LEXEME_LEN - 1"
  let ?ds = "takeWhile ?dg (x # xs)"
  from read_char_Cons [OF p] obtain s0 where
    r0: "read_char t = (Some x, s0)" and p0: "pending s0 = xs" by (auto simp: view_def)
  have f0: "fresh (Some x) s0" by (simp add: fresh_def)
  from digit_loop_spec [OF f0, of "[]"] p0 obtain c s1 where
    l1: "digit_loop (Some x) [] s0 = (c, take ?n ?ds, s1)"
    and d1: "ostr c @ pending s1 = dropWhile ?dg (x # xs)" and f1: "fresh c s1"
    by auto
  have ne: "?ds \<noteq> []" using dg by simp
  have split1: "x # xs = ?ds @ dropWhile ?dg (x # xs)" by simp
  have att: "spec_attributed (make_token ty (take ?n src) l k) src"
    if "ty = TOK_INT \<or> ty = TOK_FLOAT" "src \<noteq> []" "NUL \<notin> set src" for ty src l k
  proof -
    have "cstr (take ?n src) = take ?n src" using that(3) by (intro cstr_id) (auto dest: in_set_takeD)
    moreover have "cstr src = src" using that(3) by (rule cstr_id)
    ultimately show ?thesis using that(1,2) by (auto simp: spec_attributed_def)
  qed
  show "pending (snd (read_number t)) = spec_number_rest (x # xs)"
    and "\<exists>src. x # xs = src @ spec_number_rest (x # xs)
               \<and> spec_attributed (fst (read_number t)) src"
  proof (atomize (full), cases "c = Some CHR ''.''")
    case False
    have eq: "read_number t =
        (make_token TOK_INT (take ?n ?ds) (g_line t) (g_col t + 1), unread_char c s1)"
      using False r0 l1 by (simp add: read_number_def Let_def)
    have rest: "spec_number_rest (x # xs) = ostr c @ pending s1"
      unfolding spec_number_rest_def d1 [symmetric] using False f1
      by (cases c) (auto simp: fresh_def)
    have a: "spec_attributed (fst (read_number t)) ?ds"
      unfolding eq fst_conv by (rule att [OF _ ne digits_no_NUL]) simp
    have "x # xs = ?ds @ spec_number_rest (x # xs)" unfolding rest d1 by (rule split1)
    with a eq rest show "pending (snd (read_number t)) = spec_number_rest (x # xs) \<and>
        (\<exists>src. x # xs = src @ spec_number_rest (x # xs)
               \<and> spec_attributed (fst (read_number t)) src)"
      by (auto simp: unread_char_pending)
  next
    case True
    obtain c1 s2 where r1: "read_char s1 = (c1, s2)" by (cases "read_char s1")
    note f2 = read_char_fresh [OF r1]
    let ?r2 = "ostr c1 @ pending s2"
    let ?fs = "takeWhile ?dg ?r2"
    have d1': "dropWhile ?dg (x # xs) = CHR ''.'' # ?r2" using d1 True f2 by simp
    have len: "length (put ?n (take ?n ?ds) CHR ''.'') \<le> ?n"
      by (rule put_length) (simp del: takeWhile.simps)
    from digit_loop_spec [OF f2 [THEN conjunct2] len] obtain c2 s3 where
      l2: "digit_loop c1 (put ?n (take ?n ?ds) CHR ''.'') s2 =
             (c2, take ?n (put ?n (take ?n ?ds) CHR ''.'' @ ?fs), s3)"
      and d2: "ostr c2 @ pending s3 = dropWhile ?dg ?r2" by auto
    have buf: "take ?n (put ?n (take ?n ?ds) CHR ''.'' @ ?fs) = take ?n (?ds @ CHR ''.'' # ?fs)"
    proof -
      have "take ?n (put ?n (take ?n ?ds) CHR ''.'' @ ?fs) =
            take ?n (take ?n ?ds @ CHR ''.'' # ?fs)"
        by (rule take_put_append) simp
      then show ?thesis by (simp only: take_take_append)
    qed
    have eq: "read_number t =
        (make_token TOK_FLOAT (take ?n (?ds @ CHR ''.'' # ?fs)) (g_line t) (g_col t + 1),
         unread_char c2 s3)"
      using True r0 l1 r1 l2 unfolding buf by (simp add: read_number_def Let_def)
    have rest: "spec_number_rest (x # xs) = ostr c2 @ pending s3"
      unfolding spec_number_rest_def d1' using d2 by simp
    have nul: "NUL \<notin> set (?ds @ CHR ''.'' # ?fs)"
      using digits_no_NUL [of "x # xs"] digits_no_NUL [of ?r2]
      by (simp del: takeWhile.simps)
    have a: "spec_attributed (fst (read_number t)) (?ds @ CHR ''.'' # ?fs)"
      unfolding eq fst_conv by (rule att [OF _ _ nul]) simp_all
    have "x # xs = (?ds @ CHR ''.'' # ?fs) @ spec_number_rest (x # xs)"
    proof -
      have "?ds @ dropWhile ?dg (x # xs) = x # xs" by (rule takeWhile_dropWhile_id)
      then have "x # xs = ?ds @ CHR ''.'' # ?r2" unfolding d1' by (rule sym)
      also have "?r2 = ?fs @ dropWhile ?dg ?r2" by (rule takeWhile_dropWhile_id [symmetric])
      also have "dropWhile ?dg ?r2 = spec_number_rest (x # xs)" using rest d2 by simp
      finally show ?thesis by (simp only: append_assoc append_Cons)
    qed
    with a eq rest show "pending (snd (read_number t)) = spec_number_rest (x # xs) \<and>
        (\<exists>src. x # xs = src @ spec_number_rest (x # xs)
               \<and> spec_attributed (fst (read_number t)) src)"
      by (auto simp: unread_char_pending)
  qed
qed


lemma suffix_split: "suffix r cs \<Longrightarrow> cs = take (length cs - length r) cs @ r"
  by (auto simp: suffix_def)

lemma read_identifier_spec:
  assumes p: "pending t = x # xs" and x: "isalpha (Some x) \<or> x = CHR ''_''"
  shows "pending (snd (read_identifier_or_keyword t)) = dropWhile (\<lambda>z. idchar (Some z)) xs"
    and "\<exists>src. x # xs = src @ dropWhile (\<lambda>z. idchar (Some z)) xs
               \<and> spec_attributed (fst (read_identifier_or_keyword t)) src"
proof -
  let ?idc = "\<lambda>z. idchar (Some z)"
  let ?run = "x # takeWhile ?idc xs"
  let ?rest = "dropWhile ?idc xs"
  have pr: "pending t = ?run @ ?rest" using p by simp
  have ne: "?run \<noteq> []" by simp
  have run: "\<forall>z\<in>set ?run. idchar (Some z)"
    using x by (auto simp: isalnum_def dest: set_takeWhileD)
  have rest: "?rest = [] \<or> \<not> idchar (Some (hd ?rest))"
    using hd_dropWhile [of ?idc xs] by blast
  note R = read_identifier_run [OF pr ne run rest]
  show "pending (snd (read_identifier_or_keyword t)) = ?rest" by (rule R(2))
  have nul: "NUL \<notin> set ?run" using run idchar_not_NUL by blast
  have "spec_attributed (fst (read_identifier_or_keyword t)) ?run"
  proof (cases "?run \<in> set KEYWORDS")
    case True
    from keyword_short [OF True] have "take (MAX_LEXEME_LEN - 1) ?run = ?run"
      by (simp add: MAX_LEXEME_LEN_def)
    then show ?thesis
      unfolding R(1) using True cstr_id [OF nul]
      by (simp add: spec_attributed_def del: takeWhile.simps)
  next
    case False
    then show ?thesis unfolding R(1) by (simp add: spec_attributed_def)
  qed
  then show "\<exists>src. x # xs = src @ ?rest
               \<and> spec_attributed (fst (read_identifier_or_keyword t)) src"
    by (intro exI [of _ ?run]) simp
qed

lemma spec_string_rest_suffix: "suffix (spec_string_rest cs) cs"
  by (induction cs rule: spec_string_rest.induct)
     (auto simp: suffix_ConsI split: list.splits intro: suffix_ConsI)

lemma read_string_spec2:
  assumes p: "pending t = DQ # cs"
  shows "pending (snd (read_string t)) = spec_string_rest cs"
    and "\<exists>src. DQ # cs = src @ spec_string_rest cs \<and> spec_attributed (fst (read_string t)) src"
proof -
  from read_char_Cons [OF p] obtain s0 where
    r0: "read_char t = (Some DQ, s0)" and p0: "pending s0 = cs" by (auto simp: view_def)
  obtain c s1 where r1: "read_char s0 = (c, s1)" by (cases "read_char s0")
  note f1 = read_char_fresh [OF r1]
  obtain r s2 where l: "string_loop c [] s1 = (r, s2)" by (cases "string_loop c [] s1")
  have "snd (read_string t) = s2"
    using r0 r1 l by (simp add: read_string_def Let_def split: option.splits)
  moreover have "pending s2 = spec_string_rest cs"
    using string_loop_rest [of c s1 "[]"] f1 l p0 by simp
  ultimately show "pending (snd (read_string t)) = spec_string_rest cs" by simp
  note R = read_string_spec [OF p]
  show "\<exists>src. DQ # cs = src @ spec_string_rest cs \<and> spec_attributed (fst (read_string t)) src"
  proof (cases "spec_string_body cs")
    case None
    with R have ty: "type (fst (read_string t)) = TOK_ERROR" by simp
    let ?pre = "take (length cs - length (spec_string_rest cs)) cs"
    have "cs = ?pre @ spec_string_rest cs"
      by (rule suffix_split [OF spec_string_rest_suffix])
    then have "DQ # cs = (DQ # ?pre) @ spec_string_rest cs" by simp
    moreover have "spec_attributed (fst (read_string t)) (DQ # ?pre)"
      using ty by (simp add: spec_attributed_def)
    ultimately show ?thesis by blast
  next
    case (Some br)
    obtain body rest where br: "br = (body, rest)" by (cases br)
    from spec_body_rest [of cs body rest] Some br have
      B: "spec_string_rest cs = rest" "cs = body @ DQ # rest" "spec_contents body" by blast+
    from R Some br obtain buf where
      tok: "fst (read_string t) = make_token TOK_STRING buf (g_line t) (g_col t + 1)"
      and b: "length body \<le> MAX_LEXEME_LEN - 2 \<longrightarrow> buf = body" by auto
    have "spec_attributed (fst (read_string t)) (DQ # body @ [DQ])"
      unfolding tok using b B(3)
      by (auto simp: spec_attributed_def cstr_id MAX_LEXEME_LEN_def)
    moreover have "DQ # cs = (DQ # body @ [DQ]) @ spec_string_rest cs"
      using B(1,2) by simp
    ultimately show ?thesis by blast
  qed
qed

lemma spec_char_rest_suffix: "suffix (spec_char_rest cs) cs"
  by (auto simp: spec_char_rest_def suffix_ConsI suffix_drop split: list.splits
           intro: suffix_ConsI)

lemma read_char_literal_spec:
  assumes p: "pending t = SQ # cs"
  shows "\<exists>src. SQ # cs = src @ spec_char_rest cs
               \<and> spec_attributed (fst (read_char_literal t)) src"
proof -
  note R = read_char_literal_cases(1) [OF p]
  let ?tok = "fst (read_char_literal t)"
  consider (plain) c r where "cs = c # SQ # r" "c \<noteq> NL" "c \<noteq> BS"
    | (esc) e r where "cs = BS # e # SQ # r" "e \<noteq> NL"
    | (err) "type ?tok = TOK_ERROR"
  proof (cases cs)
    case Nil
    with R have "type ?tok = TOK_ERROR" by simp
    then show ?thesis by (rule err)
  next
    case (Cons c r)
    show ?thesis
    proof (cases "c = NL")
      case True
      with R Cons have "type ?tok = TOK_ERROR" by simp
      then show ?thesis by (rule err)
    next
      case nl: False
      show ?thesis
      proof (cases "c = BS")
        case False
        show ?thesis
        proof (cases "take 1 r = [SQ]")
          case True
          then obtain r' where "r = SQ # r'" by (cases r) auto
          with Cons nl False show ?thesis by (intro plain [of c r']) auto
        next
          case t: False
          with R Cons nl False have "type ?tok = TOK_ERROR" by simp
          then show ?thesis by (rule err)
        qed
      next
        case True
        show ?thesis
        proof (cases r)
          case Nil
          with R Cons True have "type ?tok = TOK_ERROR" by simp
          then show ?thesis by (rule err)
        next
          case (Cons e r')
          show ?thesis
          proof (cases "e \<noteq> NL \<and> take 1 r' = [SQ]")
            case True
            then obtain r'' where "r' = SQ # r''" by (cases r') auto
            with \<open>cs = c # r\<close> \<open>c = BS\<close> Cons True show ?thesis
              by (intro esc [of e r'']) auto
          next
            case False
            with R \<open>cs = c # r\<close> \<open>c = BS\<close> Cons have "type ?tok = TOK_ERROR"
              by (auto split: if_splits)
            then show ?thesis by (rule err)
          qed
        qed
      qed
    qed
  qed
  then show ?thesis
  proof cases
    case plain
    with R have "?tok = make_token TOK_CHAR [c] (g_line t) (g_col t + 1)" by simp
    then have "spec_attributed ?tok (SQ # [c] @ [SQ])"
      by (auto simp: spec_attributed_def cstr_def MAX_LEXEME_LEN_def)
    moreover have "SQ # cs = (SQ # [c] @ [SQ]) @ spec_char_rest cs"
      using plain by (simp add: spec_char_rest_def)
    ultimately show ?thesis by blast
  next
    case esc
    with R have "?tok = make_token TOK_CHAR [BS, e] (g_line t) (g_col t + 1)" by simp
    then have "spec_attributed ?tok (SQ # [BS, e] @ [SQ])"
      by (auto simp: spec_attributed_def cstr_def MAX_LEXEME_LEN_def)
    moreover have "SQ # cs = (SQ # [BS, e] @ [SQ]) @ spec_char_rest cs"
      using esc by (simp add: spec_char_rest_def)
    ultimately show ?thesis by blast
  next
    case err
    let ?pre = "take (length cs - length (spec_char_rest cs)) cs"
    have "cs = ?pre @ spec_char_rest cs"
      by (rule suffix_split [OF spec_char_rest_suffix])
    then have "SQ # cs = (SQ # ?pre) @ spec_char_rest cs" by simp
    moreover have "spec_attributed ?tok (SQ # ?pre)"
      using err by (simp add: spec_attributed_def)
    ultimately show ?thesis by blast
  qed
qed

lemma read_operator_spec:
  assumes p: "pending t = x # xs"
  shows "\<exists>src. x # xs = src @ pending (snd (read_operator_or_separator t))
               \<and> spec_attributed (fst (read_operator_or_separator t)) src"
proof -
  note R = read_operator_cases [OF p]
  let ?pair = "\<not> is_separator_char (Some x) \<and> x # take 1 xs \<in> set two_ops"
  let ?tok = "fst (read_operator_or_separator t)"
  have tok: "?tok =
           (if is_separator_char (Some x)
            then make_token TOK_SEPARATOR [x] (g_line t) (g_col t + 1)
            else if x # take 1 xs \<in> set two_ops
            then make_token TOK_OPERATOR (x # take 1 xs) (g_line t) (g_col t + 1)
            else if x \<in> set ''+-*/%<>=!&|^~?:.'' \<or> x = NUL
            then make_token TOK_OPERATOR [x] (g_line t) (g_col t + 1)
            else make_token TOK_UNKNOWN [x] (g_line t) (g_col t + 1))"
    by (subst R(1)) (simp only: fst_conv)
  show ?thesis
  proof (cases ?pair)
    case True
    then have len: "length (x # take 1 xs) = 2" using two_ops_length by blast
    then have xs: "xs \<noteq> []" by auto
    have "x # xs = (x # take 1 xs) @ pending (snd (read_operator_or_separator t))"
      using R(2) True xs by (cases xs) auto
    moreover have "spec_attributed ?tok (x # take 1 xs)"
      unfolding tok using True by (simp add: spec_attributed_def)
    ultimately show ?thesis by blast
  next
    case False
    have "x # xs = [x] @ pending (snd (read_operator_or_separator t))"
      using R(2) False by auto
    moreover have "spec_attributed ?tok [x]"
      unfolding tok using False by (auto simp: spec_attributed_def)
    ultimately show ?thesis by blast
  qed
qed

lemma dispatch_spec:
  assumes p: "pending t = x # xs"
  shows "pending (snd (dispatch x t)) = spec_lexeme_rest (x # xs)"
    and "\<exists>src. x # xs = src @ spec_lexeme_rest (x # xs) \<and> spec_attributed (fst (dispatch x t)) src"
proof -
  consider (ident) "isalpha (Some x) \<or> x = CHR ''_''"
    | (number) "\<not> (isalpha (Some x) \<or> x = CHR ''_'')" "isdigit (Some x)"
    | (str) "\<not> (isalpha (Some x) \<or> x = CHR ''_'')" "\<not> isdigit (Some x)" "x = DQ"
    | (chr) "\<not> (isalpha (Some x) \<or> x = CHR ''_'')" "\<not> isdigit (Some x)" "x \<noteq> DQ" "x = SQ"
    | (oper) "\<not> (isalpha (Some x) \<or> x = CHR ''_'')" "\<not> isdigit (Some x)" "x \<noteq> DQ"
        "x \<noteq> SQ"
    by blast
  then show "pending (snd (dispatch x t)) = spec_lexeme_rest (x # xs)"
    and "\<exists>src. x # xs = src @ spec_lexeme_rest (x # xs) \<and> spec_attributed (fst (dispatch x t)) src"
  proof (atomize (full), cases)
    case ident
    then have d: "dispatch x t = read_identifier_or_keyword t"
      and l: "spec_lexeme_rest (x # xs) = dropWhile (\<lambda>z. idchar (Some z)) xs"
      by (auto simp: dispatch_def spec_lexeme_rest_def)
    show "pending (snd (dispatch x t)) = spec_lexeme_rest (x # xs) \<and>
      (\<exists>src. x # xs = src @ spec_lexeme_rest (x # xs) \<and> spec_attributed (fst (dispatch x t)) src)"
      unfolding d l using read_identifier_spec [OF p ident] by blast
  next
    case number
    then have d: "dispatch x t = read_number t"
      and l: "spec_lexeme_rest (x # xs) = spec_number_rest (x # xs)"
      by (auto simp: dispatch_def spec_lexeme_rest_def)
    show "pending (snd (dispatch x t)) = spec_lexeme_rest (x # xs) \<and>
      (\<exists>src. x # xs = src @ spec_lexeme_rest (x # xs) \<and> spec_attributed (fst (dispatch x t)) src)"
      unfolding d l using read_number_spec [OF p number(2)] by blast
  next
    case str
    then have d: "dispatch x t = read_string t"
      and l: "spec_lexeme_rest (x # xs) = spec_string_rest xs"
      by (auto simp: dispatch_def spec_lexeme_rest_def)
    have p': "pending t = DQ # xs" using p str by simp
    show "pending (snd (dispatch x t)) = spec_lexeme_rest (x # xs) \<and>
      (\<exists>src. x # xs = src @ spec_lexeme_rest (x # xs) \<and> spec_attributed (fst (dispatch x t)) src)"
      unfolding d l using read_string_spec2 [OF p'] str(3) by blast
  next
    case chr
    then have d: "dispatch x t = read_char_literal t"
      and l: "spec_lexeme_rest (x # xs) = spec_char_rest xs"
      by (auto simp: dispatch_def spec_lexeme_rest_def)
    have p': "pending t = SQ # xs" using p chr by simp
    show "pending (snd (dispatch x t)) = spec_lexeme_rest (x # xs) \<and>
      (\<exists>src. x # xs = src @ spec_lexeme_rest (x # xs) \<and> spec_attributed (fst (dispatch x t)) src)"
      unfolding d l using read_char_literal_cases(2) [OF p'] read_char_literal_spec [OF p'] chr(4)
      by blast
  next
    case oper
    then have d: "dispatch x t = read_operator_or_separator t"
      by (auto simp: dispatch_def)
    have l: "spec_lexeme_rest (x # xs) = pending (snd (read_operator_or_separator t))"
      using oper read_operator_cases(2) [OF p] by (auto simp: spec_lexeme_rest_def)
    show "pending (snd (dispatch x t)) = spec_lexeme_rest (x # xs) \<and>
      (\<exists>src. x # xs = src @ spec_lexeme_rest (x # xs) \<and> spec_attributed (fst (dispatch x t)) src)"
      unfolding d l using read_operator_spec [OF p] by blast
  qed
qed


lemma next_token_spec:
  "pending (snd (next_token s)) = spec_lexeme_rest (spec_skip (pending s))"
  "\<exists>src. spec_skip (pending s) = src @ pending (snd (next_token s))
         \<and> spec_attributed (fst (next_token s)) src"
proof -
  let ?r = "spec_skip (pending s)"
  have k: "pending (skip_whitespace_and_comments s) = ?r" by (rule skip_spec)
  show "pending (snd (next_token s)) = spec_lexeme_rest ?r"
    and "\<exists>src. ?r = src @ pending (snd (next_token s))
         \<and> spec_attributed (fst (next_token s)) src"
  proof (atomize (full), cases ?r)
    case Nil
    with k have e: "pending (skip_whitespace_and_comments s) = []" by simp
    from next_token_Nil [OF e] e Nil
    show "pending (snd (next_token s)) = spec_lexeme_rest ?r \<and>
      (\<exists>src. ?r = src @ pending (snd (next_token s))
         \<and> spec_attributed (fst (next_token s)) src)"
      by (simp add: spec_lexeme_rest_def spec_attributed_def)
  next
    case (Cons x xs)
    with k have e: "pending (skip_whitespace_and_comments s) = x # xs" by simp
    from next_token_Cons [OF e] obtain t where
      t: "pending t = x # xs" "next_token s = dispatch x t" by blast
    from dispatch_spec [OF t(1)] t(2) Cons
    show "pending (snd (next_token s)) = spec_lexeme_rest ?r \<and>
      (\<exists>src. ?r = src @ pending (snd (next_token s))
         \<and> spec_attributed (fst (next_token s)) src)"
      by auto
  qed
qed

text \<open>
  C3. Every character is consumed once. The skipper removes the layout (whitespace and
  comments, as \<open>spec_skip\<close> words it) and nothing else; \<open>next_token\<close> then removes the
  characters of one lexeme (as \<open>spec_lexeme_rest\<close> words it) and nothing else, so every
  character that was looked at beyond the lexeme is pending again; and the characters
  removed are the ones the token stands for. What is pending before a call is therefore the
  layout, then the characters of the token, then what is pending after the call. An
  EndOfInput token is returned only when nothing but layout was left, every other call
  consumes at least one character, and after at most as many calls as there are characters,
  plus one, everything has been consumed. When the skipper reads a slash and the next
  character opens no comment, it puts both back in reverse order: what is pending is
  unchanged, and the next token is the operator that begins at the slash.
\<close>

theorem every_character_consumed_once:
  "pending (skip_whitespace_and_comments s) = spec_skip (pending s)
   \<and> pending (snd (next_token s)) = spec_lexeme_rest (spec_skip (pending s))
   \<and> (\<exists>layout src.
         pending s = layout @ src @ pending (snd (next_token s))
         \<and> spec_skip (pending s) = src @ pending (snd (next_token s))
         \<and> spec_attributed (fst (next_token s)) src)
   \<and> (type (fst (next_token s)) = TOK_EOF \<longleftrightarrow> spec_skip (pending s) = [])
   \<and> (type (fst (next_token s)) = TOK_EOF \<longrightarrow> pending (snd (next_token s)) = [])
   \<and> (type (fst (next_token s)) \<noteq> TOK_EOF \<longrightarrow>
        length (pending (snd (next_token s))) < length (pending s))
   \<and> pending (calls (Suc (length (pending s))) s) = []
   \<and> (pending s = CHR ''/'' # y # rest \<and> y \<noteq> CHR ''/'' \<and> y \<noteq> CHR ''*'' \<longrightarrow>
        pending (skip_whitespace_and_comments s) = CHR ''/'' # y # rest
        \<and> type (fst (next_token s)) = TOK_OPERATOR
        \<and> lexeme (fst (next_token s)) = (if y = CHR ''='' then ''/='' else ''/'')
        \<and> pending (snd (next_token s)) = (if y = CHR ''='' then rest else y # rest))"
proof -
  have k: "pending (skip_whitespace_and_comments s) = spec_skip (pending s)" by (rule skip_spec)
  from next_token_spec(2) [of s] obtain src where
    src: "spec_skip (pending s) = src @ pending (snd (next_token s))"
      "spec_attributed (fst (next_token s)) src" by blast
  from skip_suffix [of s] k obtain layout where
    "pending s = layout @ spec_skip (pending s)" by (auto simp: suffix_def)
  with src have a: "\<exists>layout src.
         pending s = layout @ src @ pending (snd (next_token s))
         \<and> spec_skip (pending s) = src @ pending (snd (next_token s))
         \<and> spec_attributed (fst (next_token s)) src" by auto
  have b: "type (fst (next_token s)) = TOK_EOF \<longleftrightarrow> spec_skip (pending s) = []"
    using next_token_EOF_iff [of s] k by simp
  have e: "pending s = CHR ''/'' # y # rest \<and> y \<noteq> CHR ''/'' \<and> y \<noteq> CHR ''*'' \<longrightarrow>
        pending (skip_whitespace_and_comments s) = CHR ''/'' # y # rest
        \<and> type (fst (next_token s)) = TOK_OPERATOR
        \<and> lexeme (fst (next_token s)) = (if y = CHR ''='' then ''/='' else ''/'')
        \<and> pending (snd (next_token s)) = (if y = CHR ''='' then rest else y # rest)"
  proof (intro impI, elim conjE)
    assume p: "pending s = CHR ''/'' # y # rest" and y: "y \<noteq> CHR ''/''" "y \<noteq> CHR ''*''"
    have k: "pending (skip_whitespace_and_comments s) = CHR ''/'' # y # rest"
      by (rule skip_slash [OF p y])
    from next_token_Cons [OF k] obtain t where
      t: "pending t = CHR ''/'' # y # rest" "next_token s = dispatch (CHR ''/'') t" by blast
    have d: "dispatch (CHR ''/'') t = read_operator_or_separator t"
      by (simp add: dispatch_def isalpha_def isdigit_def)
    show "pending (skip_whitespace_and_comments s) = CHR ''/'' # y # rest
        \<and> type (fst (next_token s)) = TOK_OPERATOR
        \<and> lexeme (fst (next_token s)) = (if y = CHR ''='' then ''/='' else ''/'')
        \<and> pending (snd (next_token s)) = (if y = CHR ''='' then rest else y # rest)"
      using k t(2) d read_operator_slash [OF t(1)] by simp
  qed
  show ?thesis
    using k next_token_spec(1) [of s] a b e next_token_EOF_state [of s]
      next_token_progress [of s] all_read_eventually [of s]
    by blast
qed

theorem every_character_consumed_once_witness:
  "spec_skip (pending (init_state '' 12+3'')) = ''12+3''
   \<and> fst (next_token (init_state '' 12+3'')) =
       \<lparr>type = TOK_INT, lexeme = ''12'', line = 1, col = 2\<rparr>
   \<and> pending (snd (next_token (init_state '' 12+3''))) = ''+3''
   \<and> pending (init_state ''/x y'') = CHR ''/'' # CHR ''x'' # '' y''
   \<and> type (fst (next_token (init_state ''/x y''))) = TOK_OPERATOR
   \<and> lexeme (fst (next_token (init_state ''/x y''))) = ''/''
   \<and> pending (snd (next_token (init_state ''/x y''))) = ''x y''
   \<and> length (pending (snd (next_token (init_state ''/x y'')))) < length ''/x y''
   \<and> \<not> (type (fst (next_token (init_state ''/x y''))) = TOK_EOF)
   \<and> type (fst (next_token (init_state '' ''))) = TOK_EOF
   \<and> spec_skip (pending (init_state '' '')) = []
   \<and> pending (snd (next_token (init_state '' ''))) = []"
proof -
  have n: "spec_skip (pending (init_state '' 12+3'')) = ''12+3''"
    "spec_lexeme_rest ''12+3'' = ''+3''"
    "fst (next_token (init_state '' 12+3'')) =
       \<lparr>type = TOK_INT, lexeme = ''12'', line = 1, col = 2\<rparr>"
    by code_simp+
  have h: "pending (init_state ''/x y'') = CHR ''/'' # CHR ''x'' # '' y''"
    by (simp add: pending_def init_state_def)
  have g: "spec_skip (pending (init_state '' '')) = []" by code_simp
  note A = every_character_consumed_once [of "init_state '' 12+3''" "CHR ''x''" "[]"]
  note B = every_character_consumed_once [of "init_state ''/x y''" "CHR ''x''" "'' y''"]
  note C = every_character_consumed_once [of "init_state '' ''" "CHR ''x''" "[]"]
  from A have "pending (snd (next_token (init_state '' 12+3''))) =
      spec_lexeme_rest (spec_skip (pending (init_state '' 12+3'')))" by blast
  then have a: "pending (snd (next_token (init_state '' 12+3''))) = ''+3''"
    by (simp only: n)
  have hyp: "pending (init_state ''/x y'') = CHR ''/'' # CHR ''x'' # '' y''
      \<and> CHR ''x'' \<noteq> CHR ''/'' \<and> CHR ''x'' \<noteq> CHR ''*''"
    using h by simp
  from B hyp have b: "type (fst (next_token (init_state ''/x y''))) = TOK_OPERATOR
      \<and> lexeme (fst (next_token (init_state ''/x y''))) =
          (if CHR ''x'' = CHR ''='' then ''/='' else ''/'')
      \<and> pending (snd (next_token (init_state ''/x y''))) =
          (if CHR ''x'' = CHR ''='' then '' y'' else CHR ''x'' # '' y'')"
    by blast
  then have ne: "type (fst (next_token (init_state ''/x y''))) \<noteq> TOK_EOF" by simp
  with B have "length (pending (snd (next_token (init_state ''/x y'')))) <
      length (pending (init_state ''/x y''))" by blast
  then have b': "length (pending (snd (next_token (init_state ''/x y'')))) < length ''/x y''"
    by (simp add: pending_def init_state_def)
  from C g have c: "type (fst (next_token (init_state '' ''))) = TOK_EOF" by blast
  with C have c': "pending (snd (next_token (init_state '' ''))) = []" by blast
  show ?thesis
    using n(1,3) a h b b' ne c g c' by simp
qed

end
